theory Spec2Isabelle
  imports Main "HOL-Library.Word" "HOL-Library.Char_ord"
begin

section \<open>Host values\<close>

text \<open>
  A Ruby \<open>VALUE\<close> is either an immediate (\<open>Qnil\<close>, \<open>Qtrue\<close>, \<open>Qfalse\<close>, \<open>Qundef\<close>, a
  Fixnum) or a reference to a heap object. A heap object is modelled by its identity (the
  number the allocator gave it) together with its contents; the navigator never changes an
  object after it has built it, so two references are the identical object exactly when
  they are equal as terms, and they are equal as Ruby values (\<open>==\<close>) when they agree up to
  the identities (\<open>rb_equal\<close> below). A String carries its bytes and its encoding tag, a
  Float the 64 bits of its double.
\<close>

datatype VALUE = Qnil | Qtrue | Qfalse | Qundef | Fixnum int | Ref nat robject
  and robject = RString string "nat option" | RFloat "64 word" | RBignum int
    | RArray "VALUE list" | RHash "(VALUE \<times> VALUE) list"

section \<open>Leaves\<close>

text \<open>The Ruby type tags the code stores in \<open>leaf->type\<close> and \<open>leaf->parent_type\<close>.\<close>

datatype ltype = T_NONE | T_NIL | T_TRUE | T_FALSE | T_FIXNUM | T_FLOAT | T_STRING
  | T_ARRAY | T_HASH

datatype vtype = STR_VAL | COL_VAL | RUBY_VAL

text \<open>
  \<open>struct _Leaf\<close>. A \<open>Leaf\<close> pointer is modelled by the leaf it points to, and the ring of
  siblings a collection holds (\<open>elements\<close> points to the last one, \<open>elements->next\<close> is the
  first, \<open>next\<close> leads around) by the list of its members from \<open>elements->next\<close> round to
  \<open>elements\<close>: the null pointer is the empty list, and \<open>leaf_append_element\<close> appends at
  the end. \<open>key\<close> and \<open>str\<close> are pointers into the JSON text, kept as offsets into that
  buffer. The members of the two unions are separate fields, the code reading a member only
  under the tag (\<open>parent_type\<close>, \<open>value_type\<close>) it was written under; a member
  \<open>leaf_init\<close> leaves uninitialised is \<open>0\<close>, \<open>[]\<close> or \<open>Qundef\<close>.
\<close>

datatype leaf = Leaf (key: nat) (index: nat) (str: nat) (elements: "leaf list")
  (rvalue: VALUE) (type: ltype) (parent_type: ltype) (value_type: vtype)

fun set_key :: "nat \<Rightarrow> leaf \<Rightarrow> leaf" where
  "set_key k (Leaf _ i s es v t pt vt) = Leaf k i s es v t pt vt"

fun set_index :: "nat \<Rightarrow> leaf \<Rightarrow> leaf" where
  "set_index i (Leaf k _ s es v t pt vt) = Leaf k i s es v t pt vt"

fun set_str :: "nat \<Rightarrow> leaf \<Rightarrow> leaf" where
  "set_str s (Leaf k i _ es v t pt vt) = Leaf k i s es v t pt vt"

fun set_elements :: "leaf list \<Rightarrow> leaf \<Rightarrow> leaf" where
  "set_elements es (Leaf k i s _ v t pt vt) = Leaf k i s es v t pt vt"

fun set_rvalue :: "VALUE \<Rightarrow> leaf \<Rightarrow> leaf" where
  "set_rvalue v (Leaf k i s es _ t pt vt) = Leaf k i s es v t pt vt"

fun set_parent_type :: "ltype \<Rightarrow> leaf \<Rightarrow> leaf" where
  "set_parent_type pt (Leaf k i s es v t _ vt) = Leaf k i s es v t pt vt"

fun set_value_type :: "vtype \<Rightarrow> leaf \<Rightarrow> leaf" where
  "set_value_type vt (Leaf k i s es v t pt _) = Leaf k i s es v t pt vt"

definition leaf_init :: "ltype \<Rightarrow> leaf" where
  "leaf_init t =
     (case t of
        T_ARRAY \<Rightarrow> Leaf 0 0 0 [] Qundef t T_NONE COL_VAL
      | T_HASH \<Rightarrow> Leaf 0 0 0 [] Qundef t T_NONE COL_VAL
      | T_NIL \<Rightarrow> Leaf 0 0 0 [] Qnil t T_NONE RUBY_VAL
      | T_TRUE \<Rightarrow> Leaf 0 0 0 [] Qtrue t T_NONE RUBY_VAL
      | T_FALSE \<Rightarrow> Leaf 0 0 0 [] Qfalse t T_NONE RUBY_VAL
      | _ \<Rightarrow> Leaf 0 0 0 [] Qundef t T_NONE STR_VAL)"

text \<open>
  \<open>leaf_new\<close> takes the next cell of the current batch and initialises it; the batches
  only matter to \<open>doc_free\<close>, so a new leaf is the initialised cell.
\<close>

definition leaf_new :: "ltype \<Rightarrow> leaf" where
  "leaf_new t = leaf_init t"

definition leaf_append_element :: "leaf \<Rightarrow> leaf \<Rightarrow> leaf" where
  "leaf_append_element parent element = set_elements (elements parent @ [element]) parent"

section \<open>The JSON text\<close>

text \<open>
  The buffer the scanner reads and rewrites in place. \<open>doc_open\<close> copies the Ruby string
  together with its terminating NUL; a read past the end of the list reads that NUL.
\<close>

type_synonym buffer = "char list"

definition NUL :: char where
  "NUL = CHR 0x00"

definition peek :: "buffer \<Rightarrow> nat \<Rightarrow> char" where
  "peek b i = (if i < length b then b ! i else NUL)"

definition poke :: "buffer \<Rightarrow> nat \<Rightarrow> char \<Rightarrow> buffer" where
  "poke b i c = b[i := c]"

text \<open>The C string that starts at an offset: the bytes up to the first NUL.\<close>

definition cstr :: "buffer \<Rightarrow> nat \<Rightarrow> string" where
  "cstr b i = takeWhile (\<lambda>c. c \<noteq> NUL) (drop i b)"

definition is_digit :: "char \<Rightarrow> bool" where
  "is_digit c = (CHR ''0'' \<le> c \<and> c \<le> CHR ''9'')"

definition is_white :: "char \<Rightarrow> bool" where
  "is_white c = (c = CHR '' '' \<or> c = CHR 0x09 \<or> c = CHR 0x0C \<or> c = CHR 0x0A \<or> c = CHR 0x0D)"

lemma peek_not_NUL_in_range: "peek b i \<noteq> NUL \<Longrightarrow> i < length b"
  by (simp add: peek_def split: if_splits)

lemma peek_is_in_range: "peek b i = c \<Longrightarrow> c \<noteq> NUL \<Longrightarrow> i < length b"
  by (simp add: peek_def split: if_splits)

lemma is_digit_not_NUL: "is_digit c \<Longrightarrow> c \<noteq> NUL"
  by (auto simp: is_digit_def NUL_def)

lemma is_white_not_NUL: "is_white c \<Longrightarrow> c \<noteq> NUL"
  by (auto simp: is_white_def NUL_def)

function next_non_white :: "buffer \<Rightarrow> nat \<Rightarrow> nat" where
  "next_non_white b s = (if is_white (peek b s) then next_non_white b (s + 1) else s)"
  by pat_completeness auto
termination
  by (relation "measure (\<lambda>(b, s). length b - s)")
    (auto dest!: is_white_not_NUL peek_not_NUL_in_range)

text \<open>The loop \<open>for (; '0' <= *pi->s && *pi->s <= '9'; pi->s++)\<close> of \<open>read_num\<close>.\<close>

function skip_digits :: "buffer \<Rightarrow> nat \<Rightarrow> nat" where
  "skip_digits b s = (if is_digit (peek b s) then skip_digits b (s + 1) else s)"
  by pat_completeness auto
termination
  by (relation "measure (\<lambda>(b, s). length b - s)")
    (auto dest!: is_digit_not_NUL peek_not_NUL_in_range)

declare next_non_white.simps [simp del] skip_digits.simps [simp del]

section \<open>Errors\<close>

text \<open>
  \<open>raise_error(msg, pi->str, pi->s)\<close> raises the parse error with the message and the
  place in the text; \<open>rb_raise\<close> raises an ArgumentError or a TypeError, and
  \<open>LocateError loc path\<close> is the ArgumentError of \<open>doc_move\<close>, "Failed to locate element
  loc of the path path.". The two faults are what the C code does without raising: it
  follows a null \<open>Leaf\<close>, or it leaves the \<open>MAX_STACK\<close> entries of a path array (the
  checks are still "TBD" in the source).
\<close>

datatype error = SyntaxError string nat | ArgError string | LocateError int string
  | TypeError | NullLeaf | StackOverflow

section \<open>Scanner\<close>

record ParseInfo =
  json :: buffer
  s :: nat
  size_d :: nat

subsection \<open>Numbers\<close>

text \<open>
  \<open>read_num\<close>: the kind starts as \<open>T_FIXNUM\<close> and is set to \<open>T_FLOAT\<close> in the branch of the
  decimal point only. The result is the new leaf and the new position.
\<close>

definition read_num :: "buffer \<Rightarrow> nat \<Rightarrow> leaf \<times> nat" where
  "read_num b start =
     (let s1 = (if peek b start = CHR ''-'' then start + 1 else start);
          s2 = skip_digits b s1;
          (ty, s3) = (if peek b s2 = CHR ''.'' then (T_FLOAT, skip_digits b (s2 + 1))
                      else (T_FIXNUM, s2));
          s4 = (if peek b s3 = CHR ''e'' \<or> peek b s3 = CHR ''E''
                then skip_digits b
                       (if peek b (s3 + 1) = CHR ''-'' \<or> peek b (s3 + 1) = CHR ''+''
                        then s3 + 2 else s3 + 1)
                else s3)
      in (set_str start (leaf_new ty), s4))"

subsection \<open>Strings\<close>

text \<open>One hex digit of \<open>read_hex\<close>, in the \<open>uint8_t\<close> the code computes in.\<close>

definition hex_digit :: "char \<Rightarrow> 8 word option" where
  "hex_digit c =
     (if CHR ''0'' \<le> c \<and> c \<le> CHR ''9'' then Some (of_char c - of_char CHR ''0'')
      else if CHR ''A'' \<le> c \<and> c \<le> CHR ''F'' then Some (of_char c - of_char CHR ''A'' + 10)
      else if CHR ''a'' \<le> c \<and> c \<le> CHR ''f'' then Some (of_char c - of_char CHR ''a'' + 10)
      else None)"

definition read_hex :: "buffer \<Rightarrow> nat \<Rightarrow> error + char" where
  "read_hex b h =
     (case hex_digit (peek b h) of
        None \<Rightarrow> Inl (SyntaxError ''invalid hex character'' h)
      | Some b1 \<Rightarrow>
          (case hex_digit (peek b (h + 1)) of
             None \<Rightarrow> Inl (SyntaxError ''invalid hex character'' (h + 1))
           | Some b2 \<Rightarrow> Inr (char_of (unat (push_bit 4 b1 + b2)))))"

text \<open>The byte a one-letter escape stands for (the \<open>switch\<close> of \<open>read_quoted_value\<close>).\<close>

definition escape_char :: "char \<Rightarrow> char option" where
  "escape_char c =
     (if c = CHR ''n'' then Some (CHR 0x0A)
      else if c = CHR ''r'' then Some (CHR 0x0D)
      else if c = CHR ''t'' then Some (CHR 0x09)
      else if c = CHR ''f'' then Some (CHR 0x0C)
      else if c = CHR ''b'' then Some (CHR 0x08)
      else if c = CHR 0x22 then Some (CHR 0x22)
      else if c = CHR ''/'' then Some (CHR ''/'')
      else if c = CHR 0x5C then Some (CHR 0x5C)
      else None)"

lemma hex_digit_not_NUL: "hex_digit c = Some w \<Longrightarrow> c \<noteq> NUL"
  by (auto simp: hex_digit_def NUL_def split: if_splits)

lemma read_hex_in_range: "read_hex b h = Inr c \<Longrightarrow> h + 1 < length b"
  by (auto simp: read_hex_def split: option.splits
      dest!: hex_digit_not_NUL peek_not_NUL_in_range)

text \<open>
  The loop of \<open>read_quoted_value\<close>: \<open>h\<close> is the head that reads, \<open>t\<close> the tail that
  writes. It returns the rewritten buffer and the two pointers when the head is on the
  closing quote. In the branch of \<open>\u\<close> the tail moves on after the first byte only
  when that byte is not NUL.
\<close>

function read_quoted_loop :: "buffer \<Rightarrow> nat \<Rightarrow> nat \<Rightarrow> error + (buffer \<times> nat \<times> nat)" where
  "read_quoted_loop b h t =
     (if peek b h = CHR 0x22 then Inr (b, h, t)
      else if peek b h = NUL then Inl (SyntaxError ''quoted string not terminated'' h)
      else if peek b h = CHR 0x5C then
        (if peek b (h + 1) = CHR ''u'' then
           (case read_hex b (h + 2) of
              Inl e \<Rightarrow> Inl e
            | Inr c1 \<Rightarrow>
                (case read_hex (poke b t c1) (h + 4) of
                   Inl e \<Rightarrow> Inl e
                 | Inr c2 \<Rightarrow>
                     (if peek (poke b t c1) t \<noteq> NUL
                      then read_quoted_loop (poke (poke b t c1) (t + 1) c2) (h + 6) (t + 2)
                      else read_quoted_loop (poke (poke b t c1) t c2) (h + 6) (t + 1))))
         else
           (case escape_char (peek b (h + 1)) of
              None \<Rightarrow> Inl (SyntaxError ''invalid escaped character'' (h + 1))
            | Some c \<Rightarrow> read_quoted_loop (poke b t c) (h + 2) (t + 1)))
      else read_quoted_loop (if t \<noteq> h then poke b t (peek b h) else b) (h + 1) (t + 1))"
  by pat_completeness auto
termination
  by (relation "measure (\<lambda>(b, h, t). length b - h)")
    (auto simp: poke_def intro!: diff_less_mono2
      dest: peek_is_in_range peek_not_NUL_in_range read_hex_in_range)

declare read_quoted_loop.simps [simp del]

text \<open>
  \<open>read_quoted_value\<close>: head and tail start after the opening quote; at the closing quote
  the value is terminated at the tail. The result is the buffer, the start of the value
  and the position after the closing quote.
\<close>

definition read_quoted_value :: "buffer \<Rightarrow> nat \<Rightarrow> error + (buffer \<times> nat \<times> nat)" where
  "read_quoted_value b s0 =
     (case read_quoted_loop b (s0 + 1) (s0 + 1) of
        Inl e \<Rightarrow> Inl e
      | Inr (b', h, t) \<Rightarrow> Inr (poke b' t NUL, s0 + 1, h + 1))"

subsection \<open>Documents\<close>

text \<open>
  \<open>struct _Doc\<close>. \<open>where_p\<close> is the pointer \<open>where\<close> as an index into \<open>where_path\<close>;
  a null entry is \<open>None\<close>. \<open>buf\<close> is the parsed JSON text, which the \<open>key\<close> and \<open>str\<close>
  pointers of the leaves refer to. \<open>doc_size\<close> is the member \<open>size\<close>.
\<close>

definition MAX_STACK :: nat where
  "MAX_STACK = 100"

record Doc =
  data :: "leaf option"
  where_p :: nat
  where_path :: "leaf option list"
  encoding :: "nat option"
  doc_size :: nat
  buf :: buffer

text \<open>
  \<open>doc_init\<close>. Only \<open>where_path[0]\<close> is set to null by the code; the entries above are
  written before they are read, and start as null here. The encoding is the one of the
  default options.
\<close>

definition doc_init :: "nat option \<Rightarrow> Doc" where
  "doc_init enc =
     \<lparr>data = None, where_p = 0, where_path = replicate MAX_STACK None, encoding = enc,
      doc_size = 0, buf = []\<rparr>"

subsection \<open>Values\<close>

text \<open>
  The state of the scanner, \<open>struct _ParseInfo\<close>, is the buffer \<open>str\<close> (here \<open>json\<close>), the
  position \<open>s\<close> in it, and the document, of which the scanner only changes the counter
  \<open>size\<close> (here \<open>size_d\<close>).
\<close>

definition raise_error :: "string \<Rightarrow> ParseInfo \<Rightarrow> error" where
  "raise_error msg pi = SyntaxError msg (s pi)"

definition cur :: "ParseInfo \<Rightarrow> char" where
  "cur pi = peek (json pi) (s pi)"

definition skip_white :: "ParseInfo \<Rightarrow> ParseInfo" where
  "skip_white pi = pi\<lparr>s := next_non_white (json pi) (s pi)\<rparr>"

definition expected :: "string \<Rightarrow> string" where
  "expected w = ''invalid format, expected '' @ [CHR 0x27] @ w @ [CHR 0x27]"

definition read_str :: "ParseInfo \<Rightarrow> error + (leaf \<times> ParseInfo)" where
  "read_str pi =
     (case read_quoted_value (json pi) (s pi) of
        Inl e \<Rightarrow> Inl e
      | Inr (b, v, s') \<Rightarrow> Inr (set_str v (leaf_new T_STRING), pi\<lparr>json := b, s := s'\<rparr>))"

definition read_true :: "ParseInfo \<Rightarrow> error + (leaf \<times> ParseInfo)" where
  "read_true pi =
     (let b = json pi; p = s pi + 1 in
      if peek b p \<noteq> CHR ''r'' \<or> peek b (p + 1) \<noteq> CHR ''u'' \<or> peek b (p + 2) \<noteq> CHR ''e''
      then Inl (raise_error (expected ''true'') (pi\<lparr>s := p\<rparr>))
      else Inr (leaf_new T_TRUE, pi\<lparr>s := p + 3\<rparr>))"

definition read_false :: "ParseInfo \<Rightarrow> error + (leaf \<times> ParseInfo)" where
  "read_false pi =
     (let b = json pi; p = s pi + 1 in
      if peek b p \<noteq> CHR ''a'' \<or> peek b (p + 1) \<noteq> CHR ''l'' \<or> peek b (p + 2) \<noteq> CHR ''s''
         \<or> peek b (p + 3) \<noteq> CHR ''e''
      then Inl (raise_error (expected ''false'') (pi\<lparr>s := p\<rparr>))
      else Inr (leaf_new T_FALSE, pi\<lparr>s := p + 4\<rparr>))"

definition read_nil :: "ParseInfo \<Rightarrow> error + (leaf \<times> ParseInfo)" where
  "read_nil pi =
     (let b = json pi; p = s pi + 1 in
      if peek b p \<noteq> CHR ''u'' \<or> peek b (p + 1) \<noteq> CHR ''l'' \<or> peek b (p + 2) \<noteq> CHR ''l''
      then Inl (raise_error (expected ''nil'') (pi\<lparr>s := p\<rparr>))
      else Inr (leaf_new T_NIL, pi\<lparr>s := p + 3\<rparr>))"

text \<open>
  What the two loops do on a delimiter: \<open>pi->s++; *end = '\0';\<close>, where \<open>end\<close> is the
  position behind the value read last.
\<close>

definition terminate :: "nat \<Rightarrow> ParseInfo \<Rightarrow> ParseInfo" where
  "terminate end pi = pi\<lparr>s := s pi + 1, json := poke (json pi) end NUL\<rparr>"

text \<open>What \<open>read_next\<close> does with the leaf a reader returned: it counts it.\<close>

definition counted ::
  "error + (leaf \<times> ParseInfo) \<Rightarrow> (error + (leaf option \<times> ParseInfo)) option" where
  "counted r =
     (case r of
        Inl e \<Rightarrow> Some (Inl e)
      | Inr (lf, pi) \<Rightarrow> Some (Inr (Some lf, pi\<lparr>size_d := size_d pi + 1\<rparr>)))"

text \<open>
  \<open>read_next\<close>, \<open>read_obj\<close> and \<open>read_array\<close> call each other; the first argument bounds
  the calls and the turns of the two \<open>while (1)\<close> loops, and \<open>None\<close> says that the bound was
  reached. A byte that starts no value makes \<open>read_next\<close> return the null leaf, after
  counting it all the same. The loops write the NUL at \<open>end\<close> once the delimiter after the
  value has been read.
\<close>

fun read_next :: "nat \<Rightarrow> ParseInfo \<Rightarrow> (error + (leaf option \<times> ParseInfo)) option"
  and read_obj :: "nat \<Rightarrow> ParseInfo \<Rightarrow> (error + (leaf \<times> ParseInfo)) option"
  and read_obj_loop :: "nat \<Rightarrow> leaf \<Rightarrow> ParseInfo \<Rightarrow> (error + (leaf \<times> ParseInfo)) option"
  and read_array :: "nat \<Rightarrow> ParseInfo \<Rightarrow> (error + (leaf \<times> ParseInfo)) option"
  and read_array_loop ::
    "nat \<Rightarrow> leaf \<Rightarrow> nat \<Rightarrow> ParseInfo \<Rightarrow> (error + (leaf \<times> ParseInfo)) option"
  where
  "read_next 0 pi = None"
| "read_next (Suc n) pi0 =
     (let pi = skip_white pi0; c = cur pi in
      if c = CHR 0x7B then
        (case read_obj n pi of None \<Rightarrow> None | Some r \<Rightarrow> counted r)
      else if c = CHR 0x5B then
        (case read_array n pi of None \<Rightarrow> None | Some r \<Rightarrow> counted r)
      else if c = CHR 0x22 then counted (read_str pi)
      else if c = CHR ''+'' \<or> c = CHR ''-'' \<or> is_digit c then
        (case read_num (json pi) (s pi) of (lf, s') \<Rightarrow> counted (Inr (lf, pi\<lparr>s := s'\<rparr>)))
      else if c = CHR ''t'' then counted (read_true pi)
      else if c = CHR ''f'' then counted (read_false pi)
      else if c = CHR ''n'' then counted (read_nil pi)
      else Some (Inr (None, pi\<lparr>size_d := size_d pi + 1\<rparr>)))"
| "read_obj n pi0 =
     (let h = leaf_new T_HASH; pi = skip_white (pi0\<lparr>s := s pi0 + 1\<rparr>) in
      if cur pi = CHR 0x7D then Some (Inr (h, pi\<lparr>s := s pi + 1\<rparr>))
      else read_obj_loop n h pi)"
| "read_obj_loop 0 h pi = None"
| "read_obj_loop (Suc n) h pi0 =
     (let pi1 = skip_white pi0 in
      if cur pi1 \<noteq> CHR 0x22 then Some (Inl (raise_error ''unexpected character'' pi1))
      else
        (case read_quoted_value (json pi1) (s pi1) of
           Inl e \<Rightarrow> Some (Inl e)
         | Inr (b, k, s') \<Rightarrow>
             (let pi2 = skip_white (pi1\<lparr>json := b, s := s'\<rparr>) in
              if cur pi2 \<noteq> CHR '':''
              then Some (Inl (raise_error ''invalid format, expected :'' pi2))
              else
                (case read_next n (pi2\<lparr>s := s pi2 + 1\<rparr>) of
                   None \<Rightarrow> None
                 | Some (Inl e) \<Rightarrow> Some (Inl e)
                 | Some (Inr (None, pi3)) \<Rightarrow>
                     Some (Inl (raise_error ''unexpected character'' pi3))
                 | Some (Inr (Some v, pi3)) \<Rightarrow>
                     (let end = s pi3;
                          h' = leaf_append_element h (set_parent_type T_HASH (set_key k v));
                          pi4 = skip_white pi3 in
                      if cur pi4 = CHR 0x7D
                      then Some (Inr (h', terminate end pi4))
                      else if cur pi4 = CHR '',''
                      then read_obj_loop n h' (terminate end pi4)
                      else Some (Inl (raise_error
                             ''invalid format, expected , or } while in an object'' pi4)))))))"
| "read_array n pi0 =
     (let a = leaf_new T_ARRAY; pi = skip_white (pi0\<lparr>s := s pi0 + 1\<rparr>) in
      if cur pi = CHR 0x5D then Some (Inr (a, pi\<lparr>s := s pi + 1\<rparr>))
      else read_array_loop n a 0 pi)"
| "read_array_loop 0 a cnt pi = None"
| "read_array_loop (Suc n) a cnt pi0 =
     (case read_next n (skip_white pi0) of
        None \<Rightarrow> None
      | Some (Inl e) \<Rightarrow> Some (Inl e)
      | Some (Inr (None, pi1)) \<Rightarrow> Some (Inl (raise_error ''unexpected character'' pi1))
      | Some (Inr (Some e, pi1)) \<Rightarrow>
          (let a' = leaf_append_element a (set_parent_type T_ARRAY (set_index (cnt + 1) e));
               end = s pi1;
               pi2 = skip_white pi1 in
           if cur pi2 = CHR '',''
           then read_array_loop n a' (cnt + 1) (terminate end pi2)
           else if cur pi2 = CHR 0x5D
           then Some (Inr (a', terminate end pi2))
           else Some (Inl (raise_error
                  ''invalid format, expected , or ] while in an array'' pi2))))"

declare read_next.simps [simp del] read_obj.simps [simp del] read_obj_loop.simps [simp del]
  read_array.simps [simp del] read_array_loop.simps [simp del]

text \<open>
  \<open>protect_open_proc\<close> reads the one value of the text, makes it the root and the first
  entry of the path, and yields the document to the block; it does not test the leaf
  \<open>read_next\<close> returned. The result is what the block returns for the document, or the
  error raised before. \<open>parse_json\<close> starts at the head of the text with the initialised
  document (the block it requires is the argument \<open>block\<close>), with a bound on the calls of
  the scanner that is never reached (\<open>parse_json_returns\<close> below).
\<close>

definition protect_open_proc ::
  "nat \<Rightarrow> (Doc \<Rightarrow> 'r) \<Rightarrow> ParseInfo \<Rightarrow> Doc \<Rightarrow> (error + 'r) option" where
  "protect_open_proc fuel block pi doc =
     (case read_next fuel pi of
        None \<Rightarrow> None
      | Some (Inl e) \<Rightarrow> Some (Inl e)
      | Some (Inr (lf, pi')) \<Rightarrow>
          Some (Inr (block (doc\<lparr>data := lf, where_path := (where_path doc)[where_p doc := lf],
                                 where_p := 0, doc_size := size_d pi', buf := json pi'\<rparr>))))"

definition parse_json :: "nat option \<Rightarrow> (Doc \<Rightarrow> 'r) \<Rightarrow> buffer \<Rightarrow> (error + 'r) option" where
  "parse_json enc block js =
     protect_open_proc (2 * length js + 1) block \<lparr>json = js, s = 0, size_d = 0\<rparr> (doc_init enc)"

text \<open>\<open>doc_open\<close> copies the bytes of the Ruby string and the NUL after them.\<close>

definition doc_open :: "nat option \<Rightarrow> (Doc \<Rightarrow> 'r) \<Rightarrow> string \<Rightarrow> (error + 'r) option" where
  "doc_open enc block txt = parse_json enc block (txt @ [NUL])"

text \<open>\<open>doc_size\<close> is the method \<open>size\<close>: it returns the counter.\<close>

text \<open>The number of leaves of a tree: the leaf itself and the leaves below it.\<close>

fun leaves :: "leaf \<Rightarrow> nat" where
  "leaves (Leaf k i st es v t pt vt) = Suc (sum_list (map leaves es))"

section \<open>Number tokens\<close>

lemma read_num_kind:
  "type (fst (read_num b st)) =
     (if peek b (skip_digits b (if peek b st = CHR ''-'' then st + 1 else st)) = CHR ''.''
      then T_FLOAT else T_FIXNUM)"
  by (simp add: read_num_def Let_def leaf_new_def leaf_init_def split: prod.splits)

text \<open>
  C6. The claim: the kind of a number token is FLOAT exactly when the scanner consumed a
  decimal point, an \<open>e\<close> or an \<open>E\<close> inside it, so that \<open>1e3\<close> is a FLOAT. The code scans
  the exponent but sets \<open>T_FLOAT\<close> in the branch of the decimal point only: on the text
  \<open>1e3\<close> \<open>read_num\<close> consumes the three bytes, the second of them the \<open>e\<close>, and returns a
  leaf of kind \<open>T_FIXNUM\<close>, which is also the root \<open>read_next\<close> returns.
\<close>

theorem read_num_exponent_is_fixnum:
  "read_num (''1e3'' @ [NUL]) 0 = (set_str 0 (leaf_new T_FIXNUM), 3)
   \<and> peek (''1e3'' @ [NUL]) 1 = CHR ''e''
   \<and> type (fst (read_num (''1e3'' @ [NUL]) 0)) = T_FIXNUM
   \<and> read_next 9 \<lparr>json = ''1e3'' @ [NUL], s = 0, size_d = 0\<rparr>
       = Some (Inr (Some (set_str 0 (leaf_new T_FIXNUM)),
                    \<lparr>json = ''1e3'' @ [NUL], s = 3, size_d = 1\<rparr>))"
  by code_simp

section \<open>Paths\<close>

text \<open>
  A path is the C string \<open>StringValuePtr\<close> gives: the bytes of the Ruby string up to the
  first NUL. \<open>Check_Type(v, T_STRING)\<close> raises a TypeError for any other value.
\<close>

definition c_string :: "string \<Rightarrow> string" where
  "c_string bytes = takeWhile (\<lambda>c. c \<noteq> NUL) bytes"

definition Check_String :: "VALUE \<Rightarrow> error + string" where
  "Check_String v = (case v of Ref _ (RString bytes _) \<Rightarrow> Inr (c_string bytes) | _ \<Rightarrow> Inl TypeError)"

text \<open>\<open>if ('/' == *path) path++\<close>\<close>

fun skip_slash :: "string \<Rightarrow> string" where
  "skip_slash [] = []"
| "skip_slash (c # cs) = (if c = CHR ''/'' then cs else c # cs)"

text \<open>\<open>'.' == *path && '.' == *(path + 1)\<close>\<close>

definition dotdot :: "string \<Rightarrow> bool" where
  "dotdot path = (take 2 path = ''..'')"

text \<open>
  The loop that reads the digits of an array step into the \<open>int\<close> \<open>cnt\<close>; the arithmetic
  of a 32-bit \<open>int\<close> is written out as that of a word (the C standard leaves the overflow
  open, the machine wraps).
\<close>

fun read_index :: "32 word \<Rightarrow> string \<Rightarrow> 32 word \<times> string" where
  "read_index cnt [] = (cnt, [])"
| "read_index cnt (c # cs) =
     (if is_digit c then read_index (cnt * 10 + (of_char c - of_char CHR ''0'')) cs
      else (cnt, c # cs))"

text \<open>
  The walk round the ring of an array, \<open>do { if (1 >= cnt) { ... break; } cnt--; e = e->next; }
  while (e != first)\<close>: the member it stops at, if any.
\<close>

fun ring_index :: "32 word \<Rightarrow> leaf list \<Rightarrow> leaf option" where
  "ring_index cnt [] = None"
| "ring_index cnt (e # es) = (if sint cnt \<le> 1 then Some e else ring_index (cnt - 1) es)"

text \<open>
  The step of an object: \<open>klen\<close> is the number of bytes before the first slash, or the
  length of the path when it has none, and the path moves on behind the slash.
\<close>

definition key_len :: "string \<Rightarrow> nat" where
  "key_len path = length (takeWhile (\<lambda>c. c \<noteq> CHR ''/'') path)"

definition after_key :: "string \<Rightarrow> string" where
  "after_key path =
     (if CHR ''/'' \<in> set path then drop (key_len path + 1) path else drop (key_len path) path)"

text \<open>\<open>0 == strncmp(key, e->key, klen) && '\0' == e->key[klen]\<close>, on C strings.\<close>

definition strncmp :: "string \<Rightarrow> string \<Rightarrow> nat \<Rightarrow> bool" where
  "strncmp a b n = (take n a \<noteq> take n b)"

definition key_matches :: "string \<Rightarrow> nat \<Rightarrow> string \<Rightarrow> bool" where
  "key_matches k klen ekey = (\<not> strncmp k ekey klen \<and> peek ekey klen = NUL)"

fun ring_key :: "buffer \<Rightarrow> string \<Rightarrow> nat \<Rightarrow> leaf list \<Rightarrow> leaf option" where
  "ring_key b k klen [] = None"
| "ring_key b k klen (e # es) =
     (if key_matches k klen (cstr b (key e)) then Some e else ring_key b k klen es)"

lemma size_elements: "e \<in> set (elements l) \<Longrightarrow> size e < size l"
  by (cases l) (auto simp: less_Suc_eq_le dest: size_list_estimation')

lemma ring_index_mem: "ring_index cnt es = Some e \<Longrightarrow> e \<in> set es"
  by (induction cnt es rule: ring_index.induct) (auto split: if_splits)

lemma ring_key_mem: "ring_key b k klen es = Some e \<Longrightarrow> e \<in> set es"
  by (induction es) (auto split: if_splits)

lemma read_index_length: "read_index cnt p = (c, p') \<Longrightarrow> length p' \<le> length p"
  by (induction cnt p rule: read_index.induct) (auto split: if_splits)

lemma ring_index_size: "ring_index cnt (elements l) = Some e \<Longrightarrow> size e < size l"
  by (auto dest: ring_index_mem size_elements)

lemma ring_key_size: "ring_key b k klen (elements l) = Some e \<Longrightarrow> size e < size l"
  by (auto dest: ring_key_mem size_elements)

lemma skip_slash_length: "length (skip_slash p) \<le> length p"
  by (cases p) auto

lemma read_index_skip_length:
  "(c, p') = read_index cnt p \<Longrightarrow> length (skip_slash p') \<le> length p"
  using read_index_length [of cnt p c p'] skip_slash_length [of p'] by simp

lemma key_len_less: "CHR ''/'' \<in> set p \<Longrightarrow> key_len p < length p"
  unfolding key_len_def by (induction p) auto

lemma key_len_le: "key_len p \<le> length p"
  unfolding key_len_def by (rule length_takeWhile_le)

lemma key_len_all: "CHR ''/'' \<notin> set p \<Longrightarrow> key_len p = length p"
  unfolding key_len_def by (induction p) auto

lemma after_key_length: "p \<noteq> [] \<Longrightarrow> length (after_key p) < length p"
  using key_len_less [of p] key_len_all [of p] by (auto simp: after_key_def)

section \<open>The resolver of fetch\<close>

text \<open>
  \<open>get_leaf\<close> walks a path on its own array \<open>stack\<close>, of which \<open>lp\<close> is the top; the result
  is the leaf found or the null leaf. A step into a collection pushes the member, and the
  code has no test for the end of the array ("TBD fail if stack too deep"), which is the
  fault \<open>StackOverflow\<close> here; a step that is not \<open>..\<close> reads the members of the top leaf,
  which is the fault \<open>NullLeaf\<close> when the top entry is null. A leaf that is no collection,
  or an empty one, is returned whatever is left of the path.
\<close>

function get_leaf :: "buffer \<Rightarrow> leaf option list \<Rightarrow> nat \<Rightarrow> string \<Rightarrow> error + leaf option" where
  "get_leaf b stack lp path =
     (if path = [] then Inr (stack ! lp)
      else if dotdot path then
        (if 0 < lp then get_leaf b stack (lp - 1) (skip_slash (drop 2 path)) else Inr None)
      else
        (case stack ! lp of
           None \<Rightarrow> Inl NullLeaf
         | Some leaf \<Rightarrow>
             if value_type leaf = COL_VAL \<and> elements leaf \<noteq> [] then
               (if type leaf = T_ARRAY then
                  (case read_index 0 path of
                     (cnt, path') \<Rightarrow>
                       (case ring_index cnt (elements leaf) of
                          None \<Rightarrow> Inr None
                        | Some e \<Rightarrow>
                            if lp + 1 < length stack
                            then get_leaf b (stack[lp + 1 := Some e]) (lp + 1) (skip_slash path')
                            else Inl StackOverflow))
                else if type leaf = T_HASH then
                  (case ring_key b path (key_len path) (elements leaf) of
                     None \<Rightarrow> Inr None
                   | Some e \<Rightarrow>
                       if lp + 1 < length stack
                       then get_leaf b (stack[lp + 1 := Some e]) (lp + 1) (after_key path)
                       else Inl StackOverflow)
                else Inr None)
             else Inr (Some leaf)))"
  by pat_completeness auto
termination
  apply (relation "measures [\<lambda>(b, stack, lp, path). length path,
    \<lambda>(b, stack, lp, path). case stack ! lp of None \<Rightarrow> 0 | Some l \<Rightarrow> size l]")
  subgoal by simp
  subgoal for b stack lp path
    using skip_slash_length [of "drop 2 path"] by (cases path) (auto simp: dotdot_def)
  subgoal
    by (frule read_index_skip_length, frule ring_index_size) auto
  subgoal for b stack lp path
    using after_key_length [of path] by auto
  done

declare get_leaf.simps [simp del]

text \<open>
  \<open>get_doc_leaf\<close>. With no path, or in a document without a root, the result is the current
  leaf. An absolute path starts on the root. For a relative path the code copies the
  \<open>cnt\<close> entries below the current one into its array and starts at entry \<open>cnt\<close>, which it
  has not copied: \<open>garbage\<close> stands for what the uninitialised array \<open>stack\<close> of
  \<open>MAX_STACK\<close> entries holds.
\<close>

definition local_array :: "leaf option list \<Rightarrow> leaf option list" where
  "local_array garbage = take MAX_STACK (garbage @ replicate MAX_STACK None)"

definition get_doc_leaf :: "leaf option list \<Rightarrow> Doc \<Rightarrow> string option \<Rightarrow> error + leaf option" where
  "get_doc_leaf garbage doc path =
     (case path of
        None \<Rightarrow> Inr (where_path doc ! where_p doc)
      | Some p \<Rightarrow>
          if data doc = None then Inr (where_path doc ! where_p doc)
          else if p \<noteq> [] \<and> hd p = CHR ''/''
          then get_leaf (buf doc) ((local_array garbage)[0 := data doc]) 0 (tl p)
          else get_leaf (buf doc)
                 (take (where_p doc) (where_path doc) @ drop (where_p doc) (local_array garbage))
                 (where_p doc) p)"

section \<open>Materialisation\<close>

text \<open>
  The part of the Ruby heap the code touches is its allocator: the state is the identity
  the next new object gets. \<open>rb_str_new2\<close> copies a C string into a new String, which
  \<open>rb_enc_associate\<close> tags with the encoding of the document when it has one.
  \<open>rb_integer\<close> is the Integer \<open>rb_cstr_to_inum\<close> returns: a Fixnum when it fits (a
  64-bit \<open>long\<close>), else a new Bignum. \<open>rb_cstr_to_dbl\<close> with its check on is a parameter
  \<open>dbl\<close> of the model: the bits of the double for a text it accepts, \<open>None\<close> for a text
  on which it raises.
\<close>

definition rb_str_new2 :: "string \<Rightarrow> nat option \<Rightarrow> nat \<Rightarrow> VALUE \<times> nat" where
  "rb_str_new2 bytes enc h = (Ref h (RString bytes enc), Suc h)"

definition FIXNUM_MAX :: int where
  "FIXNUM_MAX = 2 ^ 62 - 1"

definition NUM_MAX :: int where
  "NUM_MAX = FIXNUM_MAX div 2 ^ 8"

definition rb_integer :: "int \<Rightarrow> nat \<Rightarrow> VALUE \<times> nat" where
  "rb_integer n h =
     (if - FIXNUM_MAX - 1 \<le> n \<and> n \<le> FIXNUM_MAX then (Fixnum n, h)
      else (Ref h (RBignum n), Suc h))"

text \<open>
  The loop of \<open>leaf_fixnum_value\<close> over the digits. \<open>n\<close> is an \<open>int64_t\<close> in the code; it is
  only used when \<open>big\<close> is not set, and then it is below \<open>NUM_MAX\<close>.
\<close>

fun fixnum_digits :: "string \<Rightarrow> int \<Rightarrow> bool \<Rightarrow> int \<times> bool" where
  "fixnum_digits [] n big = (n, big)"
| "fixnum_digits (c # cs) n big =
     (if is_digit c
      then fixnum_digits cs (n * 10 + (of_char c - of_char CHR ''0''))
             (big \<or> NUM_MAX \<le> n * 10 + (of_char c - of_char CHR ''0''))
      else (n, big))"

definition leaf_fixnum_value :: "buffer \<Rightarrow> leaf \<Rightarrow> nat \<Rightarrow> leaf \<times> nat" where
  "leaf_fixnum_value b leaf h =
     (let txt = cstr b (str leaf);
          neg = (txt \<noteq> [] \<and> hd txt = CHR ''-'');
          ds = (if txt \<noteq> [] \<and> (hd txt = CHR ''-'' \<or> hd txt = CHR ''+'') then tl txt else txt);
          (n, big) = fixnum_digits ds 0 False;
          (v, h') = (if big then rb_integer (if neg then - n else n) h
                     else (Fixnum (if neg then - n else n), h))
      in (set_value_type RUBY_VAL (set_rvalue v leaf), h'))"

definition leaf_float_value ::
  "(string \<Rightarrow> 64 word option) \<Rightarrow> buffer \<Rightarrow> leaf \<Rightarrow> nat \<Rightarrow> error + (leaf \<times> nat)" where
  "leaf_float_value dbl b leaf h =
     (case dbl (cstr b (str leaf)) of
        None \<Rightarrow> Inl (ArgError ''invalid value for Float()'')
      | Some d \<Rightarrow> Inr (set_value_type RUBY_VAL (set_rvalue (Ref h (RFloat d)) leaf), Suc h))"

text \<open>
  Two values have the same contents when they agree up to the identities of the objects.
  \<open>rb_hash_aset\<close> stores under a String key: it replaces the value of an entry whose key
  has the same contents, or adds the entry at the end.
\<close>

fun erase :: "VALUE \<Rightarrow> VALUE" and erase_object :: "robject \<Rightarrow> robject" where
  "erase Qnil = Qnil"
| "erase Qtrue = Qtrue"
| "erase Qfalse = Qfalse"
| "erase Qundef = Qundef"
| "erase (Fixnum n) = Fixnum n"
| "erase (Ref i ob) = Ref 0 (erase_object ob)"
| "erase_object (RString bytes enc) = RString bytes enc"
| "erase_object (RFloat d) = RFloat d"
| "erase_object (RBignum n) = RBignum n"
| "erase_object (RArray vs) = RArray (map erase vs)"
| "erase_object (RHash kvs) = RHash (map (map_prod erase erase) kvs)"

definition rb_equal :: "VALUE \<Rightarrow> VALUE \<Rightarrow> bool" where
  "rb_equal a b = (erase a = erase b)"

fun rb_hash_aset :: "(VALUE \<times> VALUE) list \<Rightarrow> VALUE \<Rightarrow> VALUE \<Rightarrow> (VALUE \<times> VALUE) list" where
  "rb_hash_aset [] k v = [(k, v)]"
| "rb_hash_aset ((k', v') # kvs) k v =
     (if rb_equal k' k then (k', v) # kvs else (k', v') # rb_hash_aset kvs k v)"

text \<open>
  \<open>leaf_value\<close> with \<open>leaf_array_value\<close> and \<open>leaf_hash_value\<close>. The code writes the value
  into the leaf; the result here is the value, the leaf as the call leaves it, and the
  state of the allocator. The two functions on lists are the \<open>do ... while\<close> loops over
  the members of an array and of an object.
\<close>

fun leaf_value ::
    "(string \<Rightarrow> 64 word option) \<Rightarrow> Doc \<Rightarrow> leaf \<Rightarrow> nat \<Rightarrow> error + (VALUE \<times> leaf \<times> nat)"
  and leaf_array_elements ::
    "(string \<Rightarrow> 64 word option) \<Rightarrow> Doc \<Rightarrow> leaf list \<Rightarrow> nat
      \<Rightarrow> error + (VALUE list \<times> leaf list \<times> nat)"
  and leaf_hash_elements ::
    "(string \<Rightarrow> 64 word option) \<Rightarrow> Doc \<Rightarrow> leaf list \<Rightarrow> (VALUE \<times> VALUE) list \<Rightarrow> nat
      \<Rightarrow> error + ((VALUE \<times> VALUE) list \<times> leaf list \<times> nat)"
  where
  "leaf_value dbl doc (Leaf k i st es v t pt vt) h =
     (if vt \<noteq> RUBY_VAL then
        (case t of
           T_NIL \<Rightarrow> Inr (Qnil, Leaf k i st es Qnil t pt vt, h)
         | T_TRUE \<Rightarrow> Inr (Qtrue, Leaf k i st es Qtrue t pt vt, h)
         | T_FALSE \<Rightarrow> Inr (Qfalse, Leaf k i st es Qfalse t pt vt, h)
         | T_FIXNUM \<Rightarrow>
             (case leaf_fixnum_value (buf doc) (Leaf k i st es v t pt vt) h of
                (leaf', h') \<Rightarrow> Inr (rvalue leaf', leaf', h'))
         | T_FLOAT \<Rightarrow>
             (case leaf_float_value dbl (buf doc) (Leaf k i st es v t pt vt) h of
                Inl e \<Rightarrow> Inl e
              | Inr (leaf', h') \<Rightarrow> Inr (rvalue leaf', leaf', h'))
         | T_STRING \<Rightarrow>
             (case rb_str_new2 (cstr (buf doc) st) (encoding doc) h of
                (sv, h') \<Rightarrow> Inr (sv, Leaf k i st es sv t pt RUBY_VAL, h'))
         | T_ARRAY \<Rightarrow>
             (case leaf_array_elements dbl doc es (Suc h) of
                Inl e \<Rightarrow> Inl e
              | Inr (vs, es', h') \<Rightarrow> Inr (Ref h (RArray vs), Leaf k i st es' v t pt vt, h'))
         | T_HASH \<Rightarrow>
             (case leaf_hash_elements dbl doc es [] (Suc h) of
                Inl e \<Rightarrow> Inl e
              | Inr (kvs, es', h') \<Rightarrow> Inr (Ref h (RHash kvs), Leaf k i st es' v t pt vt, h'))
         | T_NONE \<Rightarrow> Inl TypeError)
      else Inr (v, Leaf k i st es v t pt vt, h))"
| "leaf_array_elements dbl doc [] h = Inr ([], [], h)"
| "leaf_array_elements dbl doc (e # es) h =
     (case leaf_value dbl doc e h of
        Inl err \<Rightarrow> Inl err
      | Inr (v, e', h') \<Rightarrow>
          (case leaf_array_elements dbl doc es h' of
             Inl err \<Rightarrow> Inl err
           | Inr (vs, es', h'') \<Rightarrow> Inr (v # vs, e' # es', h'')))"
| "leaf_hash_elements dbl doc [] kvs h = Inr (kvs, [], h)"
| "leaf_hash_elements dbl doc (e # es) kvs h =
     (case rb_str_new2 (cstr (buf doc) (key e)) (encoding doc) h of
        (kv, h1) \<Rightarrow>
          (case leaf_value dbl doc e h1 of
             Inl err \<Rightarrow> Inl err
           | Inr (v, e', h2) \<Rightarrow>
               (case leaf_hash_elements dbl doc es (rb_hash_aset kvs kv v) h2 of
                  Inl err \<Rightarrow> Inl err
                | Inr (kvs', es', h3) \<Rightarrow> Inr (kvs', e' # es', h3))))"

section \<open>fetch\<close>

text \<open>
  \<open>doc_fetch\<close>: the first argument, when there is one, has to be a String and is the path;
  the second, when there are exactly two, is the value returned when the resolver finds no
  leaf. The function writes nothing into the document but the values \<open>leaf_value\<close> stores
  in the leaf found: its result is the value, that leaf, and the state of the allocator.
\<close>

definition doc_fetch ::
  "(string \<Rightarrow> 64 word option) \<Rightarrow> leaf option list \<Rightarrow> Doc \<Rightarrow> VALUE list \<Rightarrow> nat
    \<Rightarrow> error + (VALUE \<times> leaf option \<times> nat)" where
  "doc_fetch dbl garbage doc argv h =
     (case (if 1 \<le> length argv then map_sum id Some (Check_String (argv ! 0)) else Inr None) of
        Inl e \<Rightarrow> Inl e
      | Inr path \<Rightarrow>
          (case get_doc_leaf garbage doc path of
             Inl e \<Rightarrow> Inl e
           | Inr None \<Rightarrow> Inr (if length argv = 2 then argv ! 1 else Qnil, None, h)
           | Inr (Some leaf) \<Rightarrow>
               (case leaf_value dbl doc leaf h of
                  Inl e \<Rightarrow> Inl e
                | Inr (v, leaf', h') \<Rightarrow> Inr (v, Some leaf', h'))))"

text \<open>The value \<open>doc_fetch\<close> returns.\<close>

definition fetched :: "error + (VALUE \<times> leaf option \<times> nat) \<Rightarrow> error + VALUE" where
  "fetched r = map_sum id fst r"


section \<open>move\<close>

text \<open>
  \<open>move_step\<close> walks the path on the path of the document itself. The result is the
  \<open>loc\<close> it returns (\<open>0\<close> when the path has been walked, else the number of the step that
  failed) and the document as it leaves it. A step into a collection pushes the member,
  calls itself for the rest of the path and, when that fails, pops the member again
  (\<open>*doc->where = 0; doc->where--;\<close>). A step \<open>..\<close> pops the current leaf \<open>init\<close>, and when
  the rest of the path fails it runs \<open>*doc->where = init; doc->where++;\<close>, in this order.
\<close>

definition current :: "Doc \<Rightarrow> leaf option" where
  "current doc = where_path doc ! where_p doc"

definition push :: "leaf \<Rightarrow> Doc \<Rightarrow> Doc" where
  "push e doc =
     doc\<lparr>where_p := where_p doc + 1, where_path := (where_path doc)[where_p doc + 1 := Some e]\<rparr>"

definition pop :: "Doc \<Rightarrow> Doc" where
  "pop doc =
     doc\<lparr>where_path := (where_path doc)[where_p doc := None], where_p := where_p doc - 1\<rparr>"

definition unpop :: "leaf \<Rightarrow> Doc \<Rightarrow> Doc" where
  "unpop init doc =
     doc\<lparr>where_path := (where_path doc)[where_p doc := Some init], where_p := where_p doc + 1\<rparr>"

function move_step :: "Doc \<Rightarrow> string \<Rightarrow> int \<Rightarrow> error + (int \<times> Doc)" where
  "move_step doc path loc =
     (if path = [] then Inr (0, doc)
      else if \<not> where_p doc < length (where_path doc) then Inl StackOverflow
      else
        (case current doc of
           None \<Rightarrow> Inr (loc, doc)
         | Some leaf \<Rightarrow>
             if dotdot path then
               (if where_p doc = 0 then Inr (loc, doc)
                else
                  (case move_step (pop doc) (skip_slash (drop 2 path)) (loc + 1) of
                     Inl e \<Rightarrow> Inl e
                   | Inr (loc', doc') \<Rightarrow>
                       if loc' \<noteq> 0 then Inr (loc', unpop leaf doc') else Inr (loc', doc')))
             else if value_type leaf = COL_VAL \<and> elements leaf \<noteq> [] then
               (if type leaf = T_ARRAY then
                  (case read_index 0 path of
                     (cnt, path') \<Rightarrow>
                       if path' \<noteq> [] \<and> hd path' \<noteq> CHR ''/'' then Inr (loc, doc)
                       else
                         (case ring_index cnt (elements leaf) of
                            None \<Rightarrow> Inr (loc, doc)
                          | Some e \<Rightarrow>
                              if where_p doc + 1 < length (where_path doc) then
                                (case move_step (push e doc) (skip_slash path') (loc + 1) of
                                   Inl err \<Rightarrow> Inl err
                                 | Inr (loc', doc') \<Rightarrow>
                                     if loc' \<noteq> 0 then Inr (loc', pop doc')
                                     else Inr (loc', doc'))
                              else Inl StackOverflow))
                else if type leaf = T_HASH then
                  (case ring_key (buf doc) path (key_len path) (elements leaf) of
                     None \<Rightarrow> Inr (loc, doc)
                   | Some e \<Rightarrow>
                       if where_p doc + 1 < length (where_path doc) then
                         (case move_step (push e doc) (after_key path) (loc + 1) of
                            Inl err \<Rightarrow> Inl err
                          | Inr (loc', doc') \<Rightarrow>
                              if loc' \<noteq> 0 then Inr (loc', pop doc') else Inr (loc', doc'))
                       else Inl StackOverflow)
                else Inr (loc, doc))
             else Inr (loc, doc)))"
  by pat_completeness auto
termination
  apply (relation "measures [\<lambda>(doc, path, loc). length path,
    \<lambda>(doc, path, loc). case current doc of None \<Rightarrow> 0 | Some l \<Rightarrow> size l]")
  subgoal by simp
  subgoal for doc path
    using skip_slash_length [of "drop 2 path"] by (cases path) (auto simp: dotdot_def)
  subgoal
    by (frule read_index_skip_length, frule ring_index_size) (auto simp: current_def push_def)
  subgoal for doc path
    using after_key_length [of path] by auto
  done

declare move_step.simps [simp del]

text \<open>
  \<open>doc_move\<close>: a leading slash sets \<open>where\<close> back to the root before the walk. The result
  is the error raised, if any, and the document as the call leaves it (as the call found
  it, for a fault).
\<close>

definition doc_move :: "Doc \<Rightarrow> VALUE \<Rightarrow> error option \<times> Doc" where
  "doc_move doc arg =
     (case Check_String arg of
        Inl e \<Rightarrow> (Some e, doc)
      | Inr path \<Rightarrow>
          (let (doc1, path1) =
                 (if path \<noteq> [] \<and> hd path = CHR ''/'' then (doc\<lparr>where_p := 0\<rparr>, tl path)
                  else (doc, path))
           in case move_step doc1 path1 1 of
                Inl e \<Rightarrow> (Some e, doc)
              | Inr (loc, doc') \<Rightarrow>
                  if loc \<noteq> 0 then (Some (LocateError loc path1), doc') else (None, doc')))"

text \<open>The cursor stack: the entries of the path from the root to the current leaf.\<close>

definition cursor :: "Doc \<Rightarrow> leaf option list" where
  "cursor doc = take (where_p doc + 1) (where_path doc)"

section \<open>where?\<close>

text \<open>\<open>ulong_fill\<close>: the decimal digits of a number, \<open>0\<close> for zero.\<close>

function ulong_digits :: "nat \<Rightarrow> string" where
  "ulong_digits num =
     (if 0 < num then ulong_digits (num div 10) @ [char_of (num mod 10 + of_char CHR ''0'')]
      else [])"
  by pat_completeness auto
termination
  by (relation "measure id") auto

declare ulong_digits.simps [simp del]

definition ulong_fill :: "nat \<Rightarrow> string" where
  "ulong_fill num = (if ulong_digits num = [] then ''0'' else ulong_digits num)"

text \<open>
  \<open>doc_where\<close>: the bytes of the String it returns. The second loop of the code writes,
  for each entry of the path from the root to the current leaf, the key or the index (by
  the kind of the parent) and a slash; the last slash is then cut. An entry that is null
  is followed all the same.
\<close>

fun where_steps :: "buffer \<Rightarrow> leaf option list \<Rightarrow> error + string" where
  "where_steps b [] = Inr []"
| "where_steps b (None # lps) = Inl NullLeaf"
| "where_steps b (Some leaf # lps) =
     (case where_steps b lps of
        Inl e \<Rightarrow> Inl e
      | Inr rest \<Rightarrow>
          Inr ((if parent_type leaf = T_HASH then cstr b (key leaf)
                else if parent_type leaf = T_ARRAY then ulong_fill (index leaf)
                else []) @ CHR ''/'' # rest))"

definition doc_where :: "Doc \<Rightarrow> error + string" where
  "doc_where doc =
     (if where_path doc ! 0 = None \<or> where_p doc = 0 then Inr ''/''
      else
        (case where_steps (buf doc) (take (where_p doc + 1) (where_path doc)) of
           Inl e \<Rightarrow> Inl e
         | Inr p \<Rightarrow> Inr (butlast p)))"

section \<open>each_leaf\<close>

text \<open>
  \<open>each_leaf\<close> yields the document at every leaf below the current one; the result is the
  list of what the block returned, and the document as the walk leaves it. For a
  collection with members it moves \<open>where\<close> up by one and writes each member at
  \<open>*doc->where\<close> in turn before it calls itself; it does not move \<open>where\<close> back after the
  loop. \<open>each_leaf_ring\<close> is the \<open>do ... while\<close> loop over the members.
\<close>

function each_leaf :: "(Doc \<Rightarrow> 'a) \<Rightarrow> Doc \<Rightarrow> error + ('a list \<times> Doc)"
  and each_leaf_ring :: "(Doc \<Rightarrow> 'a) \<Rightarrow> leaf list \<Rightarrow> Doc \<Rightarrow> error + ('a list \<times> Doc)"
  where
  "each_leaf block doc =
     (if \<not> where_p doc < length (where_path doc) then Inl StackOverflow
      else
        (case current doc of
           None \<Rightarrow> Inl NullLeaf
         | Some leaf \<Rightarrow>
             if value_type leaf = COL_VAL then
               (if elements leaf \<noteq> []
                then each_leaf_ring block (elements leaf) (doc\<lparr>where_p := where_p doc + 1\<rparr>)
                else Inr ([], doc))
             else Inr ([block doc], doc)))"
| "each_leaf_ring block [] doc = Inr ([], doc)"
| "each_leaf_ring block (e # es) doc =
     (if \<not> where_p doc < length (where_path doc) then Inl StackOverflow
      else
        (case each_leaf block (doc\<lparr>where_path := (where_path doc)[where_p doc := Some e]\<rparr>) of
           Inl err \<Rightarrow> Inl err
         | Inr (ys, doc') \<Rightarrow>
             (case each_leaf_ring block es doc' of
                Inl err \<Rightarrow> Inl err
              | Inr (zs, doc'') \<Rightarrow> Inr (ys @ zs, doc''))))"
  by pat_completeness auto
termination
  apply (relation "measure (\<lambda>x. case x of
      Inl (block, doc) \<Rightarrow> (case current doc of None \<Rightarrow> 0 | Some l \<Rightarrow> 2 * size l)
    | Inr (block, es, doc) \<Rightarrow> 2 * size_list size es + 1)")
  subgoal by simp
  subgoal for block doc leaf
    by (cases leaf) (auto simp: current_def)
  subgoal by (auto simp: current_def)
  subgoal by auto
  done

declare each_leaf.simps [simp del] each_leaf_ring.simps [simp del]

text \<open>
  \<open>doc_each_leaf\<close> (a block is given): it saves the \<open>wlen\<close> entries of the path below the
  current one, walks to the path when there is one, runs \<open>each_leaf\<close>, and copies the saved
  entries back. It does not set \<open>where\<close> back.
\<close>

definition restore_path :: "leaf option list \<Rightarrow> nat \<Rightarrow> Doc \<Rightarrow> Doc" where
  "restore_path save_path wlen doc =
     doc\<lparr>where_path := take wlen save_path @ drop wlen (where_path doc)\<rparr>"

definition doc_each_leaf :: "(Doc \<Rightarrow> 'a) \<Rightarrow> Doc \<Rightarrow> VALUE list \<Rightarrow> error + ('a list \<times> Doc)" where
  "doc_each_leaf block doc argv =
     (let wlen = where_p doc; save_path = where_path doc in
      case (if 1 \<le> length argv
            then (case Check_String (argv ! 0) of
                    Inl e \<Rightarrow> Inl e
                  | Inr path \<Rightarrow>
                      move_step
                        (if path \<noteq> [] \<and> hd path = CHR ''/'' then doc\<lparr>where_p := 0\<rparr> else doc)
                        (if path \<noteq> [] \<and> hd path = CHR ''/'' then tl path else path) 1)
            else Inr (0, doc)) of
        Inl e \<Rightarrow> Inl e
      | Inr (loc, doc1) \<Rightarrow>
          if loc \<noteq> 0 then Inr ([], restore_path save_path wlen doc1)
          else
            (case each_leaf block doc1 of
               Inl e \<Rightarrow> Inl e
             | Inr (ys, doc2) \<Rightarrow> Inr (ys, restore_path save_path wlen doc2)))"

section \<open>The scanner, step by step\<close>

lemma leaves_leaf_new [simp]: "leaves (leaf_new t) = 1"
  by (cases t) (simp_all add: leaf_new_def leaf_init_def)

lemma leaves_set [simp]:
  "leaves (set_key k l) = leaves l"
  "leaves (set_index i l) = leaves l"
  "leaves (set_str st l) = leaves l"
  "leaves (set_parent_type pt l) = leaves l"
  by (cases l; simp)+

lemma leaves_append [simp]: "leaves (leaf_append_element p e) = leaves p + leaves e"
  by (cases p) (simp add: leaf_append_element_def)

text \<open>The readers of the scalars, as \<open>read_next\<close> chooses among them.\<close>

definition reads_scalar :: "ParseInfo \<Rightarrow> leaf \<Rightarrow> ParseInfo \<Rightarrow> bool" where
  "reads_scalar pi lf pi' =
     (cur pi = CHR 0x22 \<and> read_str pi = Inr (lf, pi')
      \<or> (cur pi = CHR ''+'' \<or> cur pi = CHR ''-'' \<or> is_digit (cur pi))
          \<and> lf = fst (read_num (json pi) (s pi))
          \<and> pi' = pi\<lparr>s := snd (read_num (json pi) (s pi))\<rparr>
      \<or> cur pi = CHR ''t'' \<and> read_true pi = Inr (lf, pi')
      \<or> cur pi = CHR ''f'' \<and> read_false pi = Inr (lf, pi')
      \<or> cur pi = CHR ''n'' \<and> read_nil pi = Inr (lf, pi'))"

lemma counted_Inr:
  "counted r = Some (Inr (x, pi')) \<longleftrightarrow>
     (\<exists>lf pi0. r = Inr (lf, pi0) \<and> x = Some lf \<and> pi' = pi0\<lparr>size_d := size_d pi0 + 1\<rparr>)"
  by (auto simp: counted_def split: sum.splits)

lemma counted_read_num:
  "(case read_num b st of (lf, s') \<Rightarrow> counted (Inr (lf, pi\<lparr>s := s'\<rparr>))) = Some (Inr (x, pi'))
   \<longleftrightarrow> x = Some (fst (read_num b st))
       \<and> pi' = pi\<lparr>s := snd (read_num b st), size_d := size_d pi + 1\<rparr>"
  by (auto simp: counted_Inr split: prod.splits)

lemma read_next_Suc_scalar:
  assumes "read_next (Suc n) pi0 = Some (Inr (r, pi'))"
    and "cur (skip_white pi0) \<noteq> CHR 0x7B" "cur (skip_white pi0) \<noteq> CHR 0x5B"
  shows "(\<exists>lf pi1. reads_scalar (skip_white pi0) lf pi1 \<and> r = Some lf
            \<and> pi' = pi1\<lparr>size_d := size_d pi1 + 1\<rparr>)
         \<or> r = None \<and> pi' = (skip_white pi0)\<lparr>size_d := size_d pi0 + 1\<rparr>"
proof -
  let ?pi = "skip_white pi0"
  have sz: "size_d ?pi = size_d pi0" by (simp add: skip_white_def)
  consider (str) "cur ?pi = CHR 0x22"
    | (num) "cur ?pi \<noteq> CHR 0x22" "cur ?pi = CHR ''+'' \<or> cur ?pi = CHR ''-'' \<or> is_digit (cur ?pi)"
    | (tr) "cur ?pi \<noteq> CHR 0x22" "\<not> (cur ?pi = CHR ''+'' \<or> cur ?pi = CHR ''-'' \<or> is_digit (cur ?pi))"
        "cur ?pi = CHR ''t''"
    | (fa) "cur ?pi \<noteq> CHR 0x22" "\<not> (cur ?pi = CHR ''+'' \<or> cur ?pi = CHR ''-'' \<or> is_digit (cur ?pi))"
        "cur ?pi = CHR ''f''"
    | (ni) "cur ?pi \<noteq> CHR 0x22" "\<not> (cur ?pi = CHR ''+'' \<or> cur ?pi = CHR ''-'' \<or> is_digit (cur ?pi))"
        "cur ?pi = CHR ''n''"
    | (no) "cur ?pi \<noteq> CHR 0x22" "\<not> (cur ?pi = CHR ''+'' \<or> cur ?pi = CHR ''-'' \<or> is_digit (cur ?pi))"
        "cur ?pi \<noteq> CHR ''t''" "cur ?pi \<noteq> CHR ''f''" "cur ?pi \<noteq> CHR ''n''"
    by blast
  then show ?thesis
  proof cases
    case str
    with assms have "counted (read_str ?pi) = Some (Inr (r, pi'))"
      by (simp add: read_next.simps Let_def)
    with str show ?thesis by (auto simp: counted_Inr reads_scalar_def)
  next
    case num
    with assms have "(case read_num (json ?pi) (s ?pi) of
        (lf, s') \<Rightarrow> counted (Inr (lf, ?pi\<lparr>s := s'\<rparr>))) = Some (Inr (r, pi'))"
      by (simp add: read_next.simps Let_def)
    then have "r = Some (fst (read_num (json ?pi) (s ?pi)))"
      and "pi' = ?pi\<lparr>s := snd (read_num (json ?pi) (s ?pi)), size_d := size_d ?pi + 1\<rparr>"
      by (simp_all add: counted_read_num)
    moreover have "reads_scalar ?pi (fst (read_num (json ?pi) (s ?pi)))
        (?pi\<lparr>s := snd (read_num (json ?pi) (s ?pi))\<rparr>)"
      using num by (simp add: reads_scalar_def)
    ultimately show ?thesis by auto
  next
    case tr
    with assms have "counted (read_true ?pi) = Some (Inr (r, pi'))"
      by (simp add: read_next.simps Let_def)
    with tr show ?thesis by (auto simp: counted_Inr reads_scalar_def)
  next
    case fa
    with assms have "counted (read_false ?pi) = Some (Inr (r, pi'))"
      by (simp add: read_next.simps Let_def)
    with fa show ?thesis by (auto simp: counted_Inr reads_scalar_def)
  next
    case ni
    with assms have "counted (read_nil ?pi) = Some (Inr (r, pi'))"
      by (simp add: read_next.simps Let_def)
    with ni show ?thesis by (auto simp: counted_Inr reads_scalar_def)
  next
    case no
    with assms have "Some (Inr (None, ?pi\<lparr>size_d := size_d ?pi + 1\<rparr>)) = Some (Inr (r, pi'))"
      by (simp add: read_next.simps Let_def)
    with sz show ?thesis by auto
  qed
qed


lemma read_next_Suc_obj:
  "cur (skip_white pi0) = CHR 0x7B \<Longrightarrow>
   read_next (Suc n) pi0 = (case read_obj n (skip_white pi0) of None \<Rightarrow> None | Some r \<Rightarrow> counted r)"
  by (simp add: read_next.simps Let_def)

lemma read_next_Suc_arr:
  "cur (skip_white pi0) = CHR 0x5B \<Longrightarrow>
   read_next (Suc n) pi0 = (case read_array n (skip_white pi0) of None \<Rightarrow> None | Some r \<Rightarrow> counted r)"
  by (simp add: read_next.simps Let_def)

lemma read_next_Suc_not_None:
  "cur (skip_white pi0) \<noteq> CHR 0x7B \<Longrightarrow> cur (skip_white pi0) \<noteq> CHR 0x5B \<Longrightarrow>
   read_next (Suc n) pi0 \<noteq> None"
  by (simp add: read_next.simps Let_def counted_def split: sum.splits prod.splits)

lemma read_array_loop_Suc_Inr:
  assumes "read_array_loop (Suc n) a cnt pi0 = Some (Inr (h, pi'))"
  shows "\<exists>e pi1. read_next n (skip_white pi0) = Some (Inr (Some e, pi1))
     \<and> (cur (skip_white pi1) = CHR '','' \<and>
          read_array_loop n (leaf_append_element a (set_parent_type T_ARRAY (set_index (cnt + 1) e)))
            (cnt + 1) (terminate (s pi1) (skip_white pi1)) = Some (Inr (h, pi'))
        \<or> cur (skip_white pi1) = CHR 0x5D
          \<and> h = leaf_append_element a (set_parent_type T_ARRAY (set_index (cnt + 1) e))
          \<and> pi' = terminate (s pi1) (skip_white pi1))"
  using assms
  by (simp add: read_array_loop.simps Let_def split: option.splits sum.splits prod.splits if_splits)

lemma read_array_loop_Suc_None:
  assumes "read_array_loop (Suc n) a cnt pi0 = None"
  shows "read_next n (skip_white pi0) = None
     \<or> (\<exists>e pi1. read_next n (skip_white pi0) = Some (Inr (Some e, pi1))
          \<and> cur (skip_white pi1) = CHR '',''
          \<and> read_array_loop n (leaf_append_element a (set_parent_type T_ARRAY (set_index (cnt + 1) e)))
            (cnt + 1) (terminate (s pi1) (skip_white pi1)) = None)"
  using assms
  by (simp add: read_array_loop.simps Let_def split: option.splits sum.splits prod.splits if_splits)

lemma read_obj_loop_Suc_Inr:
  assumes "read_obj_loop (Suc n) h0 pi0 = Some (Inr (h, pi'))"
  shows "\<exists>b k s' v pi3. cur (skip_white pi0) = CHR 0x22
     \<and> read_quoted_value (json (skip_white pi0)) (s (skip_white pi0)) = Inr (b, k, s')
     \<and> cur (skip_white (skip_white pi0\<lparr>json := b, s := s'\<rparr>)) = CHR '':''
     \<and> read_next n (skip_white (skip_white pi0\<lparr>json := b, s := s'\<rparr>)
            \<lparr>s := s (skip_white (skip_white pi0\<lparr>json := b, s := s'\<rparr>)) + 1\<rparr>)
         = Some (Inr (Some v, pi3))
     \<and> (cur (skip_white pi3) = CHR '','' \<and>
          read_obj_loop n (leaf_append_element h0 (set_parent_type T_HASH (set_key k v)))
            (terminate (s pi3) (skip_white pi3)) = Some (Inr (h, pi'))
        \<or> cur (skip_white pi3) = CHR 0x7D
          \<and> h = leaf_append_element h0 (set_parent_type T_HASH (set_key k v))
          \<and> pi' = terminate (s pi3) (skip_white pi3))"
  using assms
  by (simp add: read_obj_loop.simps Let_def split: option.splits sum.splits prod.splits if_splits)

lemma read_obj_loop_Suc_None:
  assumes "read_obj_loop (Suc n) h0 pi0 = None"
  shows "\<exists>b k s'. cur (skip_white pi0) = CHR 0x22
     \<and> read_quoted_value (json (skip_white pi0)) (s (skip_white pi0)) = Inr (b, k, s')
     \<and> cur (skip_white (skip_white pi0\<lparr>json := b, s := s'\<rparr>)) = CHR '':''
     \<and> (read_next n (skip_white (skip_white pi0\<lparr>json := b, s := s'\<rparr>)
            \<lparr>s := s (skip_white (skip_white pi0\<lparr>json := b, s := s'\<rparr>)) + 1\<rparr>) = None
       \<or> (\<exists>v pi3. read_next n (skip_white (skip_white pi0\<lparr>json := b, s := s'\<rparr>)
            \<lparr>s := s (skip_white (skip_white pi0\<lparr>json := b, s := s'\<rparr>)) + 1\<rparr>)
              = Some (Inr (Some v, pi3))
          \<and> cur (skip_white pi3) = CHR '',''
          \<and> read_obj_loop n (leaf_append_element h0 (set_parent_type T_HASH (set_key k v)))
            (terminate (s pi3) (skip_white pi3)) = None))"
  using assms
  by (simp add: read_obj_loop.simps Let_def split: option.splits sum.splits prod.splits if_splits)

subsection \<open>The scanner moves forward\<close>

lemma next_non_white_ge: "s0 \<le> next_non_white b s0"
  by (induction b s0 rule: next_non_white.induct) (subst next_non_white.simps, auto)

lemma skip_digits_ge: "s0 \<le> skip_digits b s0"
  by (induction b s0 rule: skip_digits.induct) (subst skip_digits.simps, auto)

lemma skip_white_simps [simp]:
  "json (skip_white pi) = json pi" "size_d (skip_white pi) = size_d pi"
  by (simp_all add: skip_white_def)

lemma skip_white_ge: "s pi \<le> s (skip_white pi)"
  by (simp add: skip_white_def next_non_white_ge)

lemma terminate_simps [simp]:
  "s (terminate e pi) = s pi + 1" "size_d (terminate e pi) = size_d pi"
  "length (json (terminate e pi)) = length (json pi)"
  by (simp_all add: terminate_def poke_def)

lemma cur_in_range: "cur pi = c \<Longrightarrow> c \<noteq> NUL \<Longrightarrow> s pi < length (json pi)"
  unfolding cur_def by (rule peek_is_in_range)

lemma read_quoted_loop_progress:
  "read_quoted_loop b h t = Inr (b', h', t') \<Longrightarrow> h \<le> h' \<and> length b' = length b"
proof (induction b h t rule: read_quoted_loop.induct)
  case (1 b h t)
  note eq = "1.prems" [unfolded read_quoted_loop.simps [of b h t]]
  consider (quote) "peek b h = CHR 0x22"
    | (nul) "peek b h \<noteq> CHR 0x22" "peek b h = NUL"
    | (uni) "peek b h \<noteq> CHR 0x22" "peek b h \<noteq> NUL" "peek b h = CHR 0x5C"
        "peek b (h + 1) = CHR ''u''"
    | (esc) "peek b h \<noteq> CHR 0x22" "peek b h \<noteq> NUL" "peek b h = CHR 0x5C"
        "peek b (h + 1) \<noteq> CHR ''u''"
    | (plain) "peek b h \<noteq> CHR 0x22" "peek b h \<noteq> NUL" "peek b h \<noteq> CHR 0x5C"
    by blast
  then show ?case
  proof cases
    case quote
    with eq show ?thesis by simp
  next
    case nul
    with eq show ?thesis by simp
  next
    case uni
    from eq uni obtain c1 c2 where c1: "read_hex b (h + 2) = Inr c1"
      and c2: "read_hex (poke b t c1) (h + 4) = Inr c2"
      by (auto split: sum.splits)
    show ?thesis
    proof (cases "peek (poke b t c1) t \<noteq> NUL")
      case True
      with eq uni c1 c2
      have "read_quoted_loop (poke (poke b t c1) (t + 1) c2) (h + 6) (t + 2) = Inr (b', h', t')"
        by simp
      from "1.IH"(1) [OF uni(1,2,3,4) c1 c2 True this] show ?thesis
        by (simp add: poke_def)
    next
      case False
      with eq uni c1 c2
      have "read_quoted_loop (poke (poke b t c1) t c2) (h + 6) (t + 1) = Inr (b', h', t')"
        by simp
      from "1.IH"(2) [OF uni(1,2,3,4) c1 c2 False this] show ?thesis
        by (simp add: poke_def)
    qed
  next
    case esc
    from eq esc obtain c where c: "escape_char (peek b (h + 1)) = Some c"
      by (auto split: option.splits)
    with eq esc have "read_quoted_loop (poke b t c) (h + 2) (t + 1) = Inr (b', h', t')"
      by simp
    from "1.IH"(3) [OF esc(1,2,3,4) c this] show ?thesis
      by (simp add: poke_def)
  next
    case plain
    with eq have "read_quoted_loop (if t \<noteq> h then poke b t (peek b h) else b) (h + 1) (t + 1)
        = Inr (b', h', t')"
      by simp
    from "1.IH"(4) [OF plain this] show ?thesis
      by (simp add: poke_def split: if_splits)
  qed
qed

lemma read_quoted_value_progress:
  "read_quoted_value b s0 = Inr (b', k, s') \<Longrightarrow> s0 < s' \<and> length b' = length b"
  by (auto simp: read_quoted_value_def poke_def split: sum.splits dest!: read_quoted_loop_progress)

lemma read_num_progress: "st \<le> snd (read_num b st)"
proof -
  define s1 where "s1 = (if peek b st = CHR ''-'' then st + 1 else st)"
  define s2 where "s2 = skip_digits b s1"
  define s3 where "s3 = (if peek b s2 = CHR ''.'' then skip_digits b (s2 + 1) else s2)"
  define s4 where "s4 = (if peek b s3 = CHR ''e'' \<or> peek b s3 = CHR ''E''
                then skip_digits b
                       (if peek b (s3 + 1) = CHR ''-'' \<or> peek b (s3 + 1) = CHR ''+''
                        then s3 + 2 else s3 + 1)
                else s3)"
  have "snd (read_num b st) = s4"
    by (simp add: read_num_def Let_def s1_def s2_def s3_def s4_def)
  moreover have "st \<le> s1" by (simp add: s1_def)
  moreover have "s1 \<le> s2" by (simp add: s2_def skip_digits_ge)
  moreover have "s2 \<le> s3"
    using skip_digits_ge [of "s2 + 1" b] by (simp add: s3_def)
  moreover have "s3 \<le> s4"
    using skip_digits_ge [of "s3 + 1" b] skip_digits_ge [of "s3 + 2" b] by (simp add: s4_def)
  ultimately show ?thesis by simp
qed

lemma read_num_leaves: "read_num b st = (lf, s') \<Longrightarrow> leaves lf = 1"
  by (auto simp: read_num_def Let_def split: if_splits prod.splits)

lemma reads_scalar_progress:
  assumes "reads_scalar pi lf pi'"
  shows "s pi \<le> s pi' \<and> length (json pi') = length (json pi) \<and> size_d pi' = size_d pi
    \<and> leaves lf = 1"
proof -
  from assms consider (str) "read_str pi = Inr (lf, pi')"
    | (num) "lf = fst (read_num (json pi) (s pi))"
        "pi' = pi\<lparr>s := snd (read_num (json pi) (s pi))\<rparr>"
    | (tr) "read_true pi = Inr (lf, pi')"
    | (fa) "read_false pi = Inr (lf, pi')"
    | (ni) "read_nil pi = Inr (lf, pi')"
    unfolding reads_scalar_def by blast
  then show ?thesis
  proof cases
    case str
    then show ?thesis
      by (auto simp: read_str_def split: sum.splits dest!: read_quoted_value_progress)
  next
    case num
    then show ?thesis
      using read_num_progress [of "s pi" "json pi"]
        read_num_leaves [of "json pi" "s pi" lf "snd (read_num (json pi) (s pi))"]
      by simp
  next
    case tr
    then show ?thesis by (auto simp: read_true_def Let_def split: if_splits)
  next
    case fa
    then show ?thesis by (auto simp: read_false_def Let_def split: if_splits)
  next
    case ni
    then show ?thesis by (auto simp: read_nil_def Let_def split: if_splits)
  qed
qed

text \<open>
  What a successful call leaves behind: the position has not moved back, the buffer has
  kept its length, and the counter has grown by \<open>k\<close>.
\<close>

definition scanned :: "ParseInfo \<Rightarrow> ParseInfo \<Rightarrow> nat \<Rightarrow> bool" where
  "scanned pi pi' k =
     (s pi \<le> s pi' \<and> length (json pi') = length (json pi) \<and> size_d pi' = size_d pi + k)"

lemma scanned_refl: "scanned pi pi 0"
  by (simp add: scanned_def)

lemma scanned_trans: "scanned pi pi1 j \<Longrightarrow> scanned pi1 pi2 k \<Longrightarrow> scanned pi pi2 (j + k)"
  by (auto simp: scanned_def)

lemma scanned_skip_white: "scanned pi (skip_white pi) 0"
  by (simp add: scanned_def skip_white_ge)

lemma scanned_terminate: "scanned pi (terminate e pi) 0"
  by (simp add: scanned_def)

lemma scanned_count: "scanned pi (pi\<lparr>size_d := size_d pi + 1\<rparr>) 1"
  by (simp add: scanned_def)

lemma scanned_s: "s pi \<le> k \<Longrightarrow> scanned pi (pi\<lparr>s := k\<rparr>) 0"
  by (simp add: scanned_def)

lemma scanned_key:
  "read_quoted_value (json pi) (s pi) = Inr (b, k, s') \<Longrightarrow> scanned pi (pi\<lparr>json := b, s := s'\<rparr>) 0"
  by (auto simp: scanned_def dest!: read_quoted_value_progress)

lemma scanned_scalar: "reads_scalar pi lf pi' \<Longrightarrow> scanned pi pi' 0"
  by (auto simp: scanned_def dest!: reads_scalar_progress)

lemma read_obj_cases:
  "read_obj n pi0 = (if cur (skip_white (pi0\<lparr>s := s pi0 + 1\<rparr>)) = CHR 0x7D
     then Some (Inr (leaf_new T_HASH, (skip_white (pi0\<lparr>s := s pi0 + 1\<rparr>))
                  \<lparr>s := s (skip_white (pi0\<lparr>s := s pi0 + 1\<rparr>)) + 1\<rparr>))
     else read_obj_loop n (leaf_new T_HASH) (skip_white (pi0\<lparr>s := s pi0 + 1\<rparr>)))"
  by (simp add: read_obj.simps Let_def)

lemma read_array_cases:
  "read_array n pi0 = (if cur (skip_white (pi0\<lparr>s := s pi0 + 1\<rparr>)) = CHR 0x5D
     then Some (Inr (leaf_new T_ARRAY, (skip_white (pi0\<lparr>s := s pi0 + 1\<rparr>))
                  \<lparr>s := s (skip_white (pi0\<lparr>s := s pi0 + 1\<rparr>)) + 1\<rparr>))
     else read_array_loop n (leaf_new T_ARRAY) 0 (skip_white (pi0\<lparr>s := s pi0 + 1\<rparr>)))"
  by (simp add: read_array.simps Let_def)

lemma read_obj_scanned:
  assumes loop: "\<And>h0 pi h pi'. read_obj_loop n h0 pi = Some (Inr (h, pi')) \<Longrightarrow>
        scanned pi pi' (leaves h - leaves h0) \<and> leaves h0 \<le> leaves h"
    and res: "read_obj n pi0 = Some (Inr (h, pi'))"
  shows "scanned pi0 pi' (leaves h - 1) \<and> 0 < leaves h"
proof -
  let ?pi = "skip_white (pi0\<lparr>s := s pi0 + 1\<rparr>)"
  have a: "scanned pi0 ?pi 0"
    using scanned_trans [OF scanned_s [of pi0 "s pi0 + 1"] scanned_skip_white] by simp
  show ?thesis
  proof (cases "cur ?pi = CHR 0x7D")
    case True
    with res have "h = leaf_new T_HASH" "pi' = ?pi\<lparr>s := s ?pi + 1\<rparr>"
      by (simp_all add: read_obj_cases)
    with scanned_trans [OF a scanned_s [of ?pi "s ?pi + 1"]] show ?thesis by simp
  next
    case False
    with res have "read_obj_loop n (leaf_new T_HASH) ?pi = Some (Inr (h, pi'))"
      by (simp add: read_obj_cases)
    from loop [OF this] scanned_trans [OF a] show ?thesis by fastforce
  qed
qed

lemma read_array_scanned:
  assumes loop: "\<And>a0 cnt pi h pi'. read_array_loop n a0 cnt pi = Some (Inr (h, pi')) \<Longrightarrow>
        scanned pi pi' (leaves h - leaves a0) \<and> leaves a0 \<le> leaves h"
    and res: "read_array n pi0 = Some (Inr (h, pi'))"
  shows "scanned pi0 pi' (leaves h - 1) \<and> 0 < leaves h"
proof -
  let ?pi = "skip_white (pi0\<lparr>s := s pi0 + 1\<rparr>)"
  have a: "scanned pi0 ?pi 0"
    using scanned_trans [OF scanned_s [of pi0 "s pi0 + 1"] scanned_skip_white] by simp
  show ?thesis
  proof (cases "cur ?pi = CHR 0x5D")
    case True
    with res have "h = leaf_new T_ARRAY" "pi' = ?pi\<lparr>s := s ?pi + 1\<rparr>"
      by (simp_all add: read_array_cases)
    with scanned_trans [OF a scanned_s [of ?pi "s ?pi + 1"]] show ?thesis by simp
  next
    case False
    with res have "read_array_loop n (leaf_new T_ARRAY) 0 ?pi = Some (Inr (h, pi'))"
      by (simp add: read_array_cases)
    from loop [OF this] scanned_trans [OF a] show ?thesis by fastforce
  qed
qed

lemma read_next_scanned:
  assumes obj: "\<And>pi h pi'. read_obj n pi = Some (Inr (h, pi')) \<Longrightarrow>
        scanned pi pi' (leaves h - 1) \<and> 0 < leaves h"
    and arr: "\<And>pi h pi'. read_array n pi = Some (Inr (h, pi')) \<Longrightarrow>
        scanned pi pi' (leaves h - 1) \<and> 0 < leaves h"
    and res: "read_next (Suc n) pi0 = Some (Inr (r, pi'))"
  shows "scanned pi0 pi' (case r of None \<Rightarrow> 1 | Some l \<Rightarrow> leaves l)"
proof -
  let ?pi = "skip_white pi0"
  note a = scanned_skip_white [of pi0]
  consider (obj) "cur ?pi = CHR 0x7B" | (arr) "cur ?pi = CHR 0x5B"
    | (other) "cur ?pi \<noteq> CHR 0x7B" "cur ?pi \<noteq> CHR 0x5B" by blast
  then show ?thesis
  proof cases
    case obj
    with res obtain h pi1 where h: "read_obj n ?pi = Some (Inr (h, pi1))"
      and r: "r = Some h" "pi' = pi1\<lparr>size_d := size_d pi1 + 1\<rparr>"
      by (auto simp: read_next_Suc_obj counted_Inr split: option.splits)
    from assms(1) [OF h] have "scanned ?pi pi1 (leaves h - 1)" "0 < leaves h" by auto
    with scanned_trans [OF scanned_trans [OF a this(1)] scanned_count [of pi1]] r
    show ?thesis by simp
  next
    case arr
    with res obtain h pi1 where h: "read_array n ?pi = Some (Inr (h, pi1))"
      and r: "r = Some h" "pi' = pi1\<lparr>size_d := size_d pi1 + 1\<rparr>"
      by (auto simp: read_next_Suc_arr counted_Inr split: option.splits)
    from assms(2) [OF h] have "scanned ?pi pi1 (leaves h - 1)" "0 < leaves h" by auto
    with scanned_trans [OF scanned_trans [OF a this(1)] scanned_count [of pi1]] r
    show ?thesis by simp
  next
    case other
    from read_next_Suc_scalar [OF res other] show ?thesis
    proof (elim disjE exE conjE)
      fix lf pi1
      assume sc: "reads_scalar ?pi lf pi1" and r: "r = Some lf" "pi' = pi1\<lparr>size_d := size_d pi1 + 1\<rparr>"
      from reads_scalar_progress [OF sc] have "leaves lf = 1" by simp
      with scanned_trans [OF scanned_trans [OF a scanned_scalar [OF sc]] scanned_count [of pi1]] r
      show ?thesis by simp
    next
      assume r: "r = None" "pi' = ?pi\<lparr>size_d := size_d pi0 + 1\<rparr>"
      with scanned_trans [OF a scanned_count [of ?pi]] show ?thesis by simp
    qed
  qed
qed

lemma read_array_loop_scanned:
  assumes nxt: "\<And>pi r pi'. read_next n pi = Some (Inr (r, pi')) \<Longrightarrow>
        scanned pi pi' (case r of None \<Rightarrow> 1 | Some l \<Rightarrow> leaves l)"
    and loop: "\<And>a0 cnt pi h pi'. read_array_loop n a0 cnt pi = Some (Inr (h, pi')) \<Longrightarrow>
        scanned pi pi' (leaves h - leaves a0) \<and> leaves a0 \<le> leaves h"
    and res: "read_array_loop (Suc n) a0 cnt pi0 = Some (Inr (h, pi'))"
  shows "scanned pi0 pi' (leaves h - leaves a0) \<and> leaves a0 \<le> leaves h"
proof -
  from read_array_loop_Suc_Inr [OF res] obtain e pi1 where
    e: "read_next n (skip_white pi0) = Some (Inr (Some e, pi1))"
    and d: "cur (skip_white pi1) = CHR '','' \<and>
          read_array_loop n (leaf_append_element a0 (set_parent_type T_ARRAY (set_index (cnt + 1) e)))
            (cnt + 1) (terminate (s pi1) (skip_white pi1)) = Some (Inr (h, pi'))
        \<or> cur (skip_white pi1) = CHR 0x5D
          \<and> h = leaf_append_element a0 (set_parent_type T_ARRAY (set_index (cnt + 1) e))
          \<and> pi' = terminate (s pi1) (skip_white pi1)"
    by blast
  let ?a = "leaf_append_element a0 (set_parent_type T_ARRAY (set_index (cnt + 1) e))"
  let ?pi2 = "terminate (s pi1) (skip_white pi1)"
  from nxt [OF e] have "scanned (skip_white pi0) pi1 (leaves e)" by simp
  from scanned_trans [OF scanned_trans [OF scanned_skip_white this]
      scanned_trans [OF scanned_skip_white scanned_terminate]]
  have b: "scanned pi0 ?pi2 (leaves e)" by simp
  have la: "leaves ?a = leaves a0 + leaves e" by simp
  from d show ?thesis
  proof (elim disjE conjE)
    assume "read_array_loop n ?a (cnt + 1) ?pi2 = Some (Inr (h, pi'))"
    from loop [OF this] have "scanned ?pi2 pi' (leaves h - leaves ?a)" "leaves ?a \<le> leaves h"
      by auto
    with scanned_trans [OF b this(1)] la show ?thesis by simp
  next
    assume "h = ?a" "pi' = ?pi2"
    with b la show ?thesis by simp
  qed
qed

lemma read_obj_loop_scanned:
  assumes nxt: "\<And>pi r pi'. read_next n pi = Some (Inr (r, pi')) \<Longrightarrow>
        scanned pi pi' (case r of None \<Rightarrow> 1 | Some l \<Rightarrow> leaves l)"
    and loop: "\<And>h0 pi h pi'. read_obj_loop n h0 pi = Some (Inr (h, pi')) \<Longrightarrow>
        scanned pi pi' (leaves h - leaves h0) \<and> leaves h0 \<le> leaves h"
    and res: "read_obj_loop (Suc n) h0 pi0 = Some (Inr (h, pi'))"
  shows "scanned pi0 pi' (leaves h - leaves h0) \<and> leaves h0 \<le> leaves h"
proof -
  from read_obj_loop_Suc_Inr [OF res] obtain b k s' v pi3 where
    key: "read_quoted_value (json (skip_white pi0)) (s (skip_white pi0)) = Inr (b, k, s')"
    and v: "read_next n (skip_white (skip_white pi0\<lparr>json := b, s := s'\<rparr>)
            \<lparr>s := s (skip_white (skip_white pi0\<lparr>json := b, s := s'\<rparr>)) + 1\<rparr>)
         = Some (Inr (Some v, pi3))"
    and d: "cur (skip_white pi3) = CHR '','' \<and>
          read_obj_loop n (leaf_append_element h0 (set_parent_type T_HASH (set_key k v)))
            (terminate (s pi3) (skip_white pi3)) = Some (Inr (h, pi'))
        \<or> cur (skip_white pi3) = CHR 0x7D
          \<and> h = leaf_append_element h0 (set_parent_type T_HASH (set_key k v))
          \<and> pi' = terminate (s pi3) (skip_white pi3)"
    by blast
  let ?h = "leaf_append_element h0 (set_parent_type T_HASH (set_key k v))"
  let ?pi1 = "skip_white pi0"
  let ?pi2 = "skip_white (?pi1\<lparr>json := b, s := s'\<rparr>)"
  let ?pi4 = "terminate (s pi3) (skip_white pi3)"
  have "scanned pi0 ?pi2 0"
    using scanned_trans [OF scanned_skip_white [of pi0]
        scanned_trans [OF scanned_key [OF key] scanned_skip_white]] by simp
  from scanned_trans [OF this scanned_s [of ?pi2 "s ?pi2 + 1"]]
  have "scanned pi0 (?pi2\<lparr>s := s ?pi2 + 1\<rparr>) 0" by simp
  moreover from nxt [OF v] have "scanned (?pi2\<lparr>s := s ?pi2 + 1\<rparr>) pi3 (leaves v)" by simp
  ultimately have "scanned pi0 pi3 (leaves v)"
    using scanned_trans by fastforce
  from scanned_trans [OF this scanned_trans [OF scanned_skip_white scanned_terminate]]
  have c: "scanned pi0 ?pi4 (leaves v)" by simp
  have lh: "leaves ?h = leaves h0 + leaves v" by simp
  from d show ?thesis
  proof (elim disjE conjE)
    assume "read_obj_loop n ?h ?pi4 = Some (Inr (h, pi'))"
    from loop [OF this] have "scanned ?pi4 pi' (leaves h - leaves ?h)" "leaves ?h \<le> leaves h"
      by auto
    with scanned_trans [OF c this(1)] lh show ?thesis by simp
  next
    assume "h = ?h" "pi' = ?pi4"
    with c lh show ?thesis by simp
  qed
qed

lemma scan_inv:
  "(\<forall>pi r pi'. read_next n pi = Some (Inr (r, pi')) \<longrightarrow>
      scanned pi pi' (case r of None \<Rightarrow> 1 | Some l \<Rightarrow> leaves l))
   \<and> (\<forall>h0 pi h pi'. read_obj_loop n h0 pi = Some (Inr (h, pi')) \<longrightarrow>
        scanned pi pi' (leaves h - leaves h0) \<and> leaves h0 \<le> leaves h)
   \<and> (\<forall>a0 cnt pi h pi'. read_array_loop n a0 cnt pi = Some (Inr (h, pi')) \<longrightarrow>
        scanned pi pi' (leaves h - leaves a0) \<and> leaves a0 \<le> leaves h)"
proof (induction n)
  case 0
  show ?case by (simp add: read_next.simps read_obj_loop.simps read_array_loop.simps)
next
  case (Suc n)
  then have nxt: "\<And>pi r pi'. read_next n pi = Some (Inr (r, pi')) \<Longrightarrow>
        scanned pi pi' (case r of None \<Rightarrow> 1 | Some l \<Rightarrow> leaves l)"
    and ol: "\<And>h0 pi h pi'. read_obj_loop n h0 pi = Some (Inr (h, pi')) \<Longrightarrow>
        scanned pi pi' (leaves h - leaves h0) \<and> leaves h0 \<le> leaves h"
    and al: "\<And>a0 cnt pi h pi'. read_array_loop n a0 cnt pi = Some (Inr (h, pi')) \<Longrightarrow>
        scanned pi pi' (leaves h - leaves a0) \<and> leaves a0 \<le> leaves h"
    by blast+
  have obj: "scanned pi pi' (leaves h - 1) \<and> 0 < leaves h"
    if "read_obj n pi = Some (Inr (h, pi'))" for pi h pi'
    using ol that by (rule read_obj_scanned)
  have arr: "scanned pi pi' (leaves h - 1) \<and> 0 < leaves h"
    if "read_array n pi = Some (Inr (h, pi'))" for pi h pi'
    using al that by (rule read_array_scanned)
  have "scanned pi pi' (case r of None \<Rightarrow> 1 | Some l \<Rightarrow> leaves l)"
    if "read_next (Suc n) pi = Some (Inr (r, pi'))" for pi r pi'
    using obj arr that by (rule read_next_scanned)
  moreover have "scanned pi pi' (leaves h - leaves h0) \<and> leaves h0 \<le> leaves h"
    if "read_obj_loop (Suc n) h0 pi = Some (Inr (h, pi'))" for h0 pi h pi'
    using nxt ol that by (rule read_obj_loop_scanned)
  moreover have "scanned pi pi' (leaves h - leaves a0) \<and> leaves a0 \<le> leaves h"
    if "read_array_loop (Suc n) a0 cnt pi = Some (Inr (h, pi'))" for a0 cnt pi h pi'
    using nxt al that by (rule read_array_loop_scanned)
  ultimately show ?case by blast
qed

lemma read_next_scanned_all:
  "read_next n pi = Some (Inr (r, pi')) \<Longrightarrow>
     scanned pi pi' (case r of None \<Rightarrow> 1 | Some l \<Rightarrow> leaves l)"
  using scan_inv [of n] by blast

subsection \<open>The scanner returns\<close>

text \<open>
  Every call of \<open>read_next\<close> but the first follows a byte that has been consumed (the
  bracket that opens a collection, the colon, the comma), and so does every turn of a
  loop but the first: twice the number of bytes left, and one, bounds the calls.
\<close>

definition remaining :: "ParseInfo \<Rightarrow> nat" where
  "remaining pi = length (json pi) - s pi"

lemma scanned_remaining: "scanned pi pi' k \<Longrightarrow> remaining pi' \<le> remaining pi"
  by (auto simp: scanned_def remaining_def)

lemma remaining_terminate:
  "cur pi = c \<Longrightarrow> c \<noteq> NUL \<Longrightarrow> Suc (remaining (terminate e pi)) = remaining pi"
  by (frule (1) cur_in_range) (simp add: remaining_def)

lemma remaining_step:
  "cur pi = c \<Longrightarrow> c \<noteq> NUL \<Longrightarrow> Suc (remaining (pi\<lparr>s := s pi + 1\<rparr>)) = remaining pi"
  by (frule (1) cur_in_range) (simp add: remaining_def)

lemma counted_not_None: "counted r \<noteq> None"
  by (simp add: counted_def split: sum.splits prod.splits)

lemma counted_Some: "\<exists>y. counted r = Some y"
  using counted_not_None [of r] by auto

lemma read_obj_returns:
  assumes loop: "\<And>h pi. 2 * remaining pi + 2 \<le> n \<Longrightarrow> read_obj_loop n h pi \<noteq> None"
    and "cur pi0 = CHR 0x7B" "2 * remaining pi0 \<le> n"
  shows "read_obj n pi0 \<noteq> None"
proof -
  let ?pi = "skip_white (pi0\<lparr>s := s pi0 + 1\<rparr>)"
  have "Suc (remaining (pi0\<lparr>s := s pi0 + 1\<rparr>)) = remaining pi0"
    using assms(2) by (rule remaining_step) (simp add: NUL_def)
  moreover have "remaining ?pi \<le> remaining (pi0\<lparr>s := s pi0 + 1\<rparr>)"
    using scanned_skip_white by (rule scanned_remaining)
  ultimately have "2 * remaining ?pi + 2 \<le> n" using assms(3) by simp
  from loop [OF this] show ?thesis by (simp add: read_obj_cases)
qed

lemma read_array_returns:
  assumes loop: "\<And>a cnt pi. 2 * remaining pi + 2 \<le> n \<Longrightarrow> read_array_loop n a cnt pi \<noteq> None"
    and "cur pi0 = CHR 0x5B" "2 * remaining pi0 \<le> n"
  shows "read_array n pi0 \<noteq> None"
proof -
  let ?pi = "skip_white (pi0\<lparr>s := s pi0 + 1\<rparr>)"
  have "Suc (remaining (pi0\<lparr>s := s pi0 + 1\<rparr>)) = remaining pi0"
    using assms(2) by (rule remaining_step) (simp add: NUL_def)
  moreover have "remaining ?pi \<le> remaining (pi0\<lparr>s := s pi0 + 1\<rparr>)"
    using scanned_skip_white by (rule scanned_remaining)
  ultimately have "2 * remaining ?pi + 2 \<le> n" using assms(3) by simp
  from loop [OF this] show ?thesis by (simp add: read_array_cases)
qed

lemma read_next_returns_step:
  assumes ol: "\<And>h pi. 2 * remaining pi + 2 \<le> n \<Longrightarrow> read_obj_loop n h pi \<noteq> None"
    and al: "\<And>a cnt pi. 2 * remaining pi + 2 \<le> n \<Longrightarrow> read_array_loop n a cnt pi \<noteq> None"
    and "2 * remaining pi0 < Suc n"
  shows "read_next (Suc n) pi0 \<noteq> None"
proof -
  let ?pi = "skip_white pi0"
  have r: "2 * remaining ?pi \<le> n"
    using scanned_remaining [OF scanned_skip_white [of pi0]] assms(3) by simp
  consider (obj) "cur ?pi = CHR 0x7B" | (arr) "cur ?pi = CHR 0x5B"
    | (other) "cur ?pi \<noteq> CHR 0x7B" "cur ?pi \<noteq> CHR 0x5B" by blast
  then show ?thesis
  proof cases
    case obj
    from ol obj r have "read_obj n ?pi \<noteq> None" by (rule read_obj_returns)
    with obj show ?thesis by (auto simp: read_next_Suc_obj counted_Some)
  next
    case arr
    from al arr r have "read_array n ?pi \<noteq> None" by (rule read_array_returns)
    with arr show ?thesis by (auto simp: read_next_Suc_arr counted_Some)
  next
    case other
    then show ?thesis by (rule read_next_Suc_not_None)
  qed
qed

lemma read_array_loop_returns_step:
  assumes nxt: "\<And>pi. 2 * remaining pi < n \<Longrightarrow> read_next n pi \<noteq> None"
    and al: "\<And>a cnt pi. 2 * remaining pi + 2 \<le> n \<Longrightarrow> read_array_loop n a cnt pi \<noteq> None"
    and "2 * remaining pi0 + 2 \<le> Suc n"
  shows "read_array_loop (Suc n) a cnt pi0 \<noteq> None"
proof
  assume "read_array_loop (Suc n) a cnt pi0 = None"
  from read_array_loop_Suc_None [OF this] show False
  proof (elim disjE exE conjE)
    assume "read_next n (skip_white pi0) = None"
    moreover have "2 * remaining (skip_white pi0) < n"
      using scanned_remaining [OF scanned_skip_white [of pi0]] assms(3) by simp
    ultimately show False using nxt by blast
  next
    fix e pi1
    let ?pi2 = "skip_white pi1"
    assume e: "read_next n (skip_white pi0) = Some (Inr (Some e, pi1))"
      and c: "cur ?pi2 = CHR '',''"
      and l: "read_array_loop n (leaf_append_element a (set_parent_type T_ARRAY (set_index (cnt + 1) e)))
            (cnt + 1) (terminate (s pi1) ?pi2) = None"
    from read_next_scanned_all [OF e] have "scanned (skip_white pi0) pi1 (leaves e)" by simp
    from scanned_trans [OF scanned_trans [OF scanned_skip_white this] scanned_skip_white]
    have "remaining ?pi2 \<le> remaining pi0" by (rule scanned_remaining)
    moreover have "Suc (remaining (terminate (s pi1) ?pi2)) = remaining ?pi2"
      using c by (rule remaining_terminate) (simp add: NUL_def)
    ultimately have "2 * remaining (terminate (s pi1) ?pi2) + 2 \<le> n" using assms(3) by simp
    from al [OF this] l show False by blast
  qed
qed

lemma read_obj_loop_returns_step:
  assumes nxt: "\<And>pi. 2 * remaining pi < n \<Longrightarrow> read_next n pi \<noteq> None"
    and ol: "\<And>h pi. 2 * remaining pi + 2 \<le> n \<Longrightarrow> read_obj_loop n h pi \<noteq> None"
    and "2 * remaining pi0 + 2 \<le> Suc n"
  shows "read_obj_loop (Suc n) h0 pi0 \<noteq> None"
proof
  assume "read_obj_loop (Suc n) h0 pi0 = None"
  from read_obj_loop_Suc_None [OF this] obtain b k s' where
    key: "read_quoted_value (json (skip_white pi0)) (s (skip_white pi0)) = Inr (b, k, s')"
    and d: "read_next n (skip_white (skip_white pi0\<lparr>json := b, s := s'\<rparr>)
            \<lparr>s := s (skip_white (skip_white pi0\<lparr>json := b, s := s'\<rparr>)) + 1\<rparr>) = None
       \<or> (\<exists>v pi3. read_next n (skip_white (skip_white pi0\<lparr>json := b, s := s'\<rparr>)
            \<lparr>s := s (skip_white (skip_white pi0\<lparr>json := b, s := s'\<rparr>)) + 1\<rparr>)
              = Some (Inr (Some v, pi3))
          \<and> cur (skip_white pi3) = CHR '',''
          \<and> read_obj_loop n (leaf_append_element h0 (set_parent_type T_HASH (set_key k v)))
            (terminate (s pi3) (skip_white pi3)) = None)"
    by blast
  let ?pi2 = "skip_white (skip_white pi0\<lparr>json := b, s := s'\<rparr>)"
  let ?pi2' = "?pi2\<lparr>s := s ?pi2 + 1\<rparr>"
  have "scanned pi0 ?pi2 0"
    using scanned_trans [OF scanned_skip_white [of pi0]
        scanned_trans [OF scanned_key [OF key] scanned_skip_white]] by simp
  from scanned_trans [OF this scanned_s [of ?pi2 "s ?pi2 + 1"]]
  have a: "scanned pi0 ?pi2' 0" by simp
  from d show False
  proof (elim disjE exE conjE)
    assume "read_next n ?pi2' = None"
    moreover have "2 * remaining ?pi2' < n"
      using scanned_remaining [OF a] assms(3) by simp
    ultimately show False using nxt by blast
  next
    fix v pi3
    let ?pi4 = "skip_white pi3"
    assume v: "read_next n ?pi2' = Some (Inr (Some v, pi3))"
      and c: "cur ?pi4 = CHR '',''"
      and l: "read_obj_loop n (leaf_append_element h0 (set_parent_type T_HASH (set_key k v)))
            (terminate (s pi3) ?pi4) = None"
    from read_next_scanned_all [OF v] have "scanned ?pi2' pi3 (leaves v)" by simp
    from scanned_trans [OF scanned_trans [OF a this] scanned_skip_white]
    have "remaining ?pi4 \<le> remaining pi0" by (rule scanned_remaining)
    moreover have "Suc (remaining (terminate (s pi3) ?pi4)) = remaining ?pi4"
      using c by (rule remaining_terminate) (simp add: NUL_def)
    ultimately have "2 * remaining (terminate (s pi3) ?pi4) + 2 \<le> n" using assms(3) by simp
    from ol [OF this] l show False by blast
  qed
qed

lemma scan_returns:
  "(\<forall>pi. 2 * remaining pi < n \<longrightarrow> read_next n pi \<noteq> None)
   \<and> (\<forall>h pi. 2 * remaining pi + 2 \<le> n \<longrightarrow> read_obj_loop n h pi \<noteq> None)
   \<and> (\<forall>a cnt pi. 2 * remaining pi + 2 \<le> n \<longrightarrow> read_array_loop n a cnt pi \<noteq> None)"
proof (induction n)
  case 0
  show ?case by simp
next
  case (Suc n)
  then have nxt: "\<And>pi. 2 * remaining pi < n \<Longrightarrow> read_next n pi \<noteq> None"
    and ol: "\<And>h pi. 2 * remaining pi + 2 \<le> n \<Longrightarrow> read_obj_loop n h pi \<noteq> None"
    and al: "\<And>a cnt pi. 2 * remaining pi + 2 \<le> n \<Longrightarrow> read_array_loop n a cnt pi \<noteq> None"
    by blast+
  have "read_next (Suc n) pi \<noteq> None" if "2 * remaining pi < Suc n" for pi
    using ol al that by (rule read_next_returns_step)
  moreover have "read_obj_loop (Suc n) h pi \<noteq> None" if "2 * remaining pi + 2 \<le> Suc n" for h pi
    using nxt ol that by (rule read_obj_loop_returns_step)
  moreover have "read_array_loop (Suc n) a cnt pi \<noteq> None"
    if "2 * remaining pi + 2 \<le> Suc n" for a cnt pi
    using nxt al that by (rule read_array_loop_returns_step)
  ultimately show ?case by blast
qed

lemma read_next_returns: "2 * (length (json pi) - s pi) < n \<Longrightarrow> read_next n pi \<noteq> None"
  using scan_returns [of n] by (simp add: remaining_def)

lemma parse_json_returns: "parse_json enc block js \<noteq> None"
  using read_next_returns [of "\<lparr>json = js, s = 0, size_d = 0\<rparr>" "2 * length js + 1"]
  by (auto simp: parse_json_def protect_open_proc_def split: option.splits sum.splits)

lemma doc_open_returns: "doc_open enc block txt \<noteq> None"
  by (simp add: doc_open_def parse_json_returns)

section \<open>The size of a document\<close>



section \<open>A text without a value\<close>

lemma replicate_update_same: "(replicate n x)[i := x] = replicate n x"
  by (induction n arbitrary: i) (auto split: nat.splits)

text \<open>
  C5. The code does not do what the claim says. When the first byte after the white space
  starts no value (it is none of \<open>{\<close>, \<open>[\<close>, the double quote, \<open>+\<close>, \<open>-\<close>, a digit, \<open>t\<close>,
  \<open>f\<close>, \<open>n\<close>; the NUL that ends an empty text is such a byte), \<open>read_next\<close> returns the
  null leaf, and \<open>protect_open_proc\<close>, unlike \<open>read_obj\<close> and \<open>read_array\<close>, does not test
  for it: no SyntaxError is raised, and the block is called with a document whose root is
  null and whose size is 1.
\<close>

theorem doc_open_no_value:
  assumes "c = peek (txt @ [NUL]) (next_non_white (txt @ [NUL]) 0)"
    and "c \<noteq> CHR 0x7B" "c \<noteq> CHR 0x5B" "c \<noteq> CHR 0x22" "c \<noteq> CHR ''+''" "c \<noteq> CHR ''-''"
    and "\<not> is_digit c" "c \<noteq> CHR ''t''" "c \<noteq> CHR ''f''" "c \<noteq> CHR ''n''"
  shows "doc_open enc block txt
    = Some (Inr (block ((doc_init enc)\<lparr>doc_size := 1, buf := txt @ [NUL]\<rparr>)))"
proof -
  let ?pi = "\<lparr>json = txt @ [NUL], s = 0, size_d = 0\<rparr>"
  have "read_next (Suc (2 * length (txt @ [NUL]))) ?pi
    = Some (Inr (None, (skip_white ?pi)\<lparr>size_d := 1\<rparr>))"
    using assms by (simp add: read_next.simps Let_def cur_def skip_white_def)
  then show ?thesis
    by (simp add: doc_open_def parse_json_def protect_open_proc_def doc_init_def
        replicate_update_same)
qed

theorem doc_open_no_value_witness:
  "doc_open None doc_size '' ]'' = Some (Inr 1) \<and> doc_open None data '' ]'' = Some (Inr None)"
proof -
  have c: "CHR '']'' = peek ('' ]'' @ [NUL]) (next_non_white ('' ]'' @ [NUL]) 0)"
    by code_simp
  have d: "\<not> is_digit CHR '']''"
    by code_simp
  show ?thesis
    using doc_open_no_value [OF c _ _ _ _ _ d, of None doc_size]
      doc_open_no_value [OF c _ _ _ _ _ d, of None data]
    by (simp add: doc_init_def)
qed

text \<open>
  On the empty text no error is raised, and the block receives a document with a null
  root, of size 1 though it has no leaf.
\<close>

lemma doc_open_empty_text:
  "doc_open None data [] = Some (Inr None) \<and> doc_open None doc_size [] = Some (Inr 1)"
  by code_simp

text \<open>
  The same byte in the place of a member is a SyntaxError: \<open>read_array\<close> and \<open>read_obj\<close>
  raise when \<open>read_next\<close> returns the null leaf. And the document without a root is not
  one the navigator is written for: \<open>each_leaf\<close> reads the members of the null leaf.
\<close>

lemma read_next_null_in_collection:
  "(case doc_open None id ''[:]'' of Some (Inl (SyntaxError msg pos)) \<Rightarrow> True | _ \<Rightarrow> False)
   \<and> (case doc_open None id ''{\"a\":}'' of Some (Inl (SyntaxError msg pos)) \<Rightarrow> True | _ \<Rightarrow> False)"
  by code_simp

lemma each_leaf_null_root:
  "doc_open None (each_leaf id) [] = Some (Inr (Inl NullLeaf))"
  by code_simp

section \<open>Unicode escapes\<close>

lemma peek_poke: "peek (poke b t c) i = (if i = t \<and> t < length b then c else peek b i)"
  by (simp add: peek_def poke_def)

lemma poke_poke: "poke (poke b t c) t d = poke b t d"
  by (simp add: poke_def)

lemma read_hex_poke: "t < h \<Longrightarrow> read_hex (poke b t c) h = read_hex b h"
  by (simp add: read_hex_def peek_poke cong: option.case_cong)

text \<open>
  C4 (as the code has it). At an escape \<open>\u\<close> with four hex digits the loop writes the
  byte of the first two digits at the tail and moves the tail on only when that byte is
  not NUL; then it writes the byte of the last two digits at the tail. So it writes the
  high byte and then the low byte when the high byte is not zero, and the low byte alone,
  in the place of the high one, when the high byte is zero: for the text
  \<open>{"a":"\u00e9"}\<close> \<open>fetch("/a")\<close> is the String of the one byte \<open>0xE9\<close>.
\<close>

theorem unicode_escape_bytes:
  "(\<forall>b h t hi lo.
      peek b h = CHR 0x5C \<longrightarrow> peek b (h + 1) = CHR ''u'' \<longrightarrow>
      read_hex b (h + 2) = Inr hi \<longrightarrow> read_hex b (h + 4) = Inr lo \<longrightarrow> t \<le> h \<longrightarrow>
      read_quoted_loop b h t =
        (if hi \<noteq> NUL then read_quoted_loop (poke (poke b t hi) (t + 1) lo) (h + 6) (t + 2)
         else read_quoted_loop (poke b t lo) (h + 6) (t + 1)))
   \<and> doc_open None (\<lambda>doc. fetched (doc_fetch (\<lambda>x. None) [] doc [Ref 0 (RString ''/a'' None)] 1))
         (''{\"a\":\"'' @ [CHR 0x5C] @ ''u00e9\"}'')
       = Some (Inr (Inr (Ref 1 (RString [CHR 0xE9] None))))"
proof (intro conjI allI impI)
  fix b h t hi lo
  assume a: "peek b h = CHR 0x5C" "peek b (h + 1) = CHR ''u''"
    "read_hex b (h + 2) = Inr hi" "read_hex b (h + 4) = Inr lo" "t \<le> h"
  from a(1) have "h < length b" by (rule peek_is_in_range) (simp add: NUL_def)
  with a(5) have t: "t < length b" by simp
  from a(5) have "read_hex (poke b t hi) (h + 4) = Inr lo"
    by (simp add: read_hex_poke a(4))
  with a(1-3) t have "read_quoted_loop b h t =
        (if peek (poke b t hi) t \<noteq> NUL
         then read_quoted_loop (poke (poke b t hi) (t + 1) lo) (h + 6) (t + 2)
         else read_quoted_loop (poke (poke b t hi) t lo) (h + 6) (t + 1))"
    by (subst read_quoted_loop.simps) (simp add: NUL_def)
  moreover have "peek (poke b t hi) t = hi" using t by (simp add: peek_poke)
  ultimately show "read_quoted_loop b h t =
        (if hi \<noteq> NUL then read_quoted_loop (poke (poke b t hi) (t + 1) lo) (h + 6) (t + 2)
         else read_quoted_loop (poke b t lo) (h + 6) (t + 1))"
    by (simp add: poke_poke)
next
  show "doc_open None (\<lambda>doc. fetched (doc_fetch (\<lambda>x. None) [] doc [Ref 0 (RString ''/a'' None)] 1))
         (''{\"a\":\"'' @ [CHR 0x5C] @ ''u00e9\"}'')
       = Some (Inr (Inr (Ref 1 (RString [CHR 0xE9] None))))"
    by code_simp
qed


theorem unicode_escape_bytes_witness:
  "read_quoted_value (''\"'' @ [CHR 0x5C] @ ''u00e9\"'' @ [NUL]) 0
     = Inr ([CHR 0x22, CHR 0xE9, NUL] @ ''00e9\"'' @ [NUL], 1, 8)"
proof -
  let ?b = "''\"'' @ [CHR 0x5C] @ ''u00e9\"'' @ [NUL]"
  note g = unicode_escape_bytes [THEN conjunct1, rule_format]
  have "read_quoted_loop ?b 1 1 =
      (if NUL \<noteq> NUL
       then read_quoted_loop (poke (poke ?b 1 NUL) (1 + 1) (CHR 0xE9)) (1 + 6) (1 + 2)
       else read_quoted_loop (poke ?b 1 (CHR 0xE9)) (1 + 6) (1 + 1))"
    by (rule g) code_simp+
  moreover have "read_quoted_loop (poke ?b 1 (CHR 0xE9)) (1 + 6) (1 + 1)
      = Inr (poke ?b 1 (CHR 0xE9), 7, 2)"
    by code_simp
  ultimately have "read_quoted_loop ?b (0 + 1) (0 + 1) = Inr (poke ?b 1 (CHR 0xE9), 7, 2)"
    by simp
  then show ?thesis
    unfolding read_quoted_value_def by (simp add: poke_def NUL_def)
qed

text \<open>
  The claim of C4 fails on its own example: the String fetched at \<open>/a\<close> has one byte, not
  the two bytes \<open>0x00 0xE9\<close>, and one byte is what the scanner wrote into the text.
\<close>

theorem unicode_escape_one_byte:
  "doc_open None (\<lambda>doc. fetched (doc_fetch (\<lambda>x. None) [] doc [Ref 0 (RString ''/a'' None)] 1))
         (''{\"a\":\"'' @ [CHR 0x5C] @ ''u00e9\"}'')
       = Some (Inr (Inr (Ref 1 (RString [CHR 0xE9] None))))
   \<and> Ref 1 (RString [CHR 0xE9] None) \<noteq> Ref 1 (RString [CHR 0x00, CHR 0xE9] None)
   \<and> doc_open None buf (''{\"a\":\"'' @ [CHR 0x5C] @ ''u00e9\"}'')
       = Some (Inr (''{\"a'' @ [NUL] @ '':\"'' @ [CHR 0xE9, NUL] @ ''00e9\"'' @ [NUL, NUL]))"
  by code_simp

section \<open>Steps of the resolver\<close>

lemma read_index_step:
  "rest = [] \<or> hd rest = CHR ''/'' \<Longrightarrow> read_index cnt rest = (cnt, rest)"
  by (cases rest) (auto simp: is_digit_def)

lemma read_index_0: "rest = [] \<or> hd rest = CHR ''/'' \<Longrightarrow> read_index 0 (CHR ''0'' # rest) = (0, rest)"
  by (simp add: read_index_step is_digit_def)

lemma read_index_1: "rest = [] \<or> hd rest = CHR ''/'' \<Longrightarrow> read_index 0 (CHR ''1'' # rest) = (1, rest)"
  by (simp add: read_index_step is_digit_def)

lemma get_leaf_Nil: "get_leaf b stack lp [] = Inr (stack ! lp)"
  by (subst get_leaf.simps) simp

lemma get_leaf_array_first:
  assumes "stack ! lp = Some leaf" "value_type leaf = COL_VAL" "type leaf = T_ARRAY"
    "elements leaf = e # es" "rest = [] \<or> hd rest = CHR ''/''" "c = CHR ''0'' \<or> c = CHR ''1''"
  shows "get_leaf b stack lp (c # rest) =
     (if lp + 1 < length stack
      then get_leaf b (stack[lp + 1 := Some e]) (lp + 1) (skip_slash rest)
      else Inl StackOverflow)"
proof -
  have nd: "\<not> dotdot (c # rest)" using assms(6) by (auto simp: dotdot_def)
  have ri: "read_index 0 (c # rest) = (if c = CHR ''0'' then 0 else 1, rest)"
    using assms(6) read_index_0 [OF assms(5)] read_index_1 [OF assms(5)]
    by (auto simp del: read_index.simps)
  have rg: "ring_index (if c = CHR ''0'' then 0 else 1) (elements leaf) = Some e"
    using assms(4) by simp
  show ?thesis
    by (subst get_leaf.simps) (simp add: nd ri rg assms(1-4) del: read_index.simps)
qed

lemma doc_open_block:
  "doc_open enc block str0 = map_option (map_sum id block) (doc_open enc id str0)"
  by (simp add: doc_open_def parse_json_def protect_open_proc_def
      split: option.splits sum.splits)

text \<open>
  C10. At a non-empty array the resolver of \<open>fetch\<close>, \<open>type\<close>, \<open>each_value\<close> and \<open>dump\<close>
  takes the step \<open>0\<close> as it takes the step \<open>1\<close>: the loop stops at the first member when
  \<open>1 >= cnt\<close>. So the two steps resolve to the same leaf, the first member, whatever
  follows them in the path, and \<open>fetch("/0")\<close> and \<open>fetch("/1")\<close> return the same.
\<close>

theorem get_leaf_zero_is_one:
  assumes "value_type leaf = COL_VAL" "type leaf = T_ARRAY" "elements leaf = e # es"
  shows "(stack ! lp = Some leaf \<longrightarrow> rest = [] \<or> hd rest = CHR ''/'' \<longrightarrow>
            get_leaf b stack lp (CHR ''0'' # rest) = get_leaf b stack lp (CHR ''1'' # rest)
            \<and> get_leaf b stack lp ''0'' = (if lp + 1 < length stack then Inr (Some e) else Inl StackOverflow))
         \<and> (data doc = Some leaf \<longrightarrow>
            get_doc_leaf garbage doc (Some ''/0'') = Inr (Some e)
            \<and> get_doc_leaf garbage doc (Some ''/1'') = Inr (Some e)
            \<and> doc_fetch dbl garbage doc [Ref i (RString ''/0'' enc)] h
              = doc_fetch dbl garbage doc [Ref i (RString ''/1'' enc)] h)"
proof (intro conjI impI)
  assume s: "stack ! lp = Some leaf" and r: "rest = [] \<or> hd rest = CHR ''/''"
  from assms s r show "get_leaf b stack lp (CHR ''0'' # rest) = get_leaf b stack lp (CHR ''1'' # rest)"
    by (simp add: get_leaf_array_first)
  from assms s show "get_leaf b stack lp ''0'' = (if lp + 1 < length stack then Inr (Some e) else Inl StackOverflow)"
    by (simp add: get_leaf_array_first get_leaf_Nil)
next
  assume d: "data doc = Some leaf"
  let ?st = "(local_array garbage)[0 := data doc]"
  have len: "length ?st = MAX_STACK" by (simp add: local_array_def)
  then have top: "?st ! 0 = Some leaf" using d by (simp add: MAX_STACK_def)
  have g: "get_leaf (buf doc) ?st 0 [c] = Inr (Some e)" if "c = CHR ''0'' \<or> c = CHR ''1''" for c
    using get_leaf_array_first [OF top assms _ that, of "[]" "buf doc"] len
    by (simp add: MAX_STACK_def get_leaf_Nil)
  from g d show 0: "get_doc_leaf garbage doc (Some ''/0'') = Inr (Some e)"
    by (simp add: get_doc_leaf_def)
  from g d show 1: "get_doc_leaf garbage doc (Some ''/1'') = Inr (Some e)"
    by (simp add: get_doc_leaf_def)
  from 0 1 show "doc_fetch dbl garbage doc [Ref i (RString ''/0'' enc)] h
              = doc_fetch dbl garbage doc [Ref i (RString ''/1'' enc)] h"
    by (simp add: doc_fetch_def Check_String_def c_string_def NUL_def)
qed

theorem get_leaf_zero_is_one_witness:
  "\<exists>doc. doc_open None id ''[7,8]'' = Some (Inr doc)
     \<and> fetched (doc_fetch (\<lambda>x. None) [] doc [Ref 0 (RString ''/0'' None)] 1) = Inr (Fixnum 7)
     \<and> fetched (doc_fetch (\<lambda>x. None) [] doc [Ref 0 (RString ''/1'' None)] 1) = Inr (Fixnum 7)"
proof -
  let ?doc = "projr (the (doc_open None id ''[7,8]''))"
  let ?leaf = "the (data ?doc)"
  have 1: "doc_open None id ''[7,8]'' = Some (Inr ?doc)"
    by code_simp
  have 2: "value_type ?leaf = COL_VAL" "type ?leaf = T_ARRAY"
    "elements ?leaf = hd (elements ?leaf) # tl (elements ?leaf)" "data ?doc = Some ?leaf"
    by code_simp+
  have 3: "fetched (doc_fetch (\<lambda>x. None) [] ?doc [Ref 0 (RString ''/1'' None)] 1) = Inr (Fixnum 7)"
    by code_simp
  from get_leaf_zero_is_one [OF 2(1-3), THEN conjunct2, rule_format, OF 2(4)]
  have "doc_fetch (\<lambda>x. None) [] ?doc [Ref 0 (RString ''/0'' None)] 1
      = doc_fetch (\<lambda>x. None) [] ?doc [Ref 0 (RString ''/1'' None)] 1"
    by simp
  with 1 3 show ?thesis by auto
qed

text \<open>
  When \<open>get_doc_leaf\<close> returns the null leaf, \<open>fetch\<close> with a second argument returns that
  argument, and \<open>fetch\<close> with the path alone returns \<open>nil\<close>; nothing is raised, no leaf is
  materialised and no object is made. The document is an argument of \<open>doc_fetch\<close> and not
  among its results: the resolver walks on its own array, and neither function assigns
  \<open>where\<close> or an entry of \<open>where_path\<close>.
\<close>

lemma doc_fetch_no_leaf:
  assumes "get_doc_leaf garbage doc (Some (c_string p)) = Inr None"
  shows "doc_fetch dbl garbage doc [Ref i (RString p enc), dflt] h = Inr (dflt, None, h)
    \<and> doc_fetch dbl garbage doc [Ref i (RString p enc)] h = Inr (Qnil, None, h)"
  using assms by (simp add: doc_fetch_def Check_String_def)

section \<open>The step 0 of move\<close>

lemma move_step_Nil: "move_step doc [] loc = Inr (0, doc)"
  by (subst move_step.simps) simp

lemma move_step_array_first:
  assumes "current doc = Some leaf" "value_type leaf = COL_VAL" "type leaf = T_ARRAY"
    "elements leaf = e # es" "where_p doc + 1 < length (where_path doc)"
    "c = CHR ''0'' \<or> c = CHR ''1''"
  shows "move_step doc [c] loc = Inr (0, push e doc)"
proof -
  have nd: "\<not> dotdot [c]" by (simp add: dotdot_def)
  have ri: "read_index 0 [c] = (if c = CHR ''0'' then 0 else 1, [])"
    using assms(6) read_index_0 [of "[]"] read_index_1 [of "[]"]
    by (auto simp del: read_index.simps)
  have rg: "ring_index (if c = CHR ''0'' then 0 else 1) (elements leaf) = Some e"
    using assms(4) by simp
  from assms(5) have w: "where_p doc < length (where_path doc)" by simp
  show ?thesis
    using assms(5)
    by (subst move_step.simps)
      (simp add: nd ri rg w assms(1-4) move_step_Nil del: read_index.simps)
qed

text \<open>
  C7 (as the code has it). At a non-empty array \<open>move\<close> does not reject the step \<open>0\<close>: as
  in the resolver of \<open>fetch\<close>, the loop stops at the first member when \<open>1 >= cnt\<close>, so the
  step \<open>0\<close> is taken as the step \<open>1\<close> is. \<open>move("0")\<close> and \<open>move("/0")\<close> raise nothing and
  push the first member of the array on the path.
\<close>

theorem move_zero_is_first:
  assumes "value_type leaf = COL_VAL" "type leaf = T_ARRAY" "elements leaf = e # es"
  shows "(current doc = Some leaf \<longrightarrow> where_p doc + 1 < length (where_path doc) \<longrightarrow>
            doc_move doc (Ref i (RString ''0'' enc)) = (None, push e doc)
            \<and> doc_move doc (Ref i (RString ''1'' enc)) = (None, push e doc))
         \<and> (where_path doc ! 0 = Some leaf \<longrightarrow> 1 < length (where_path doc) \<longrightarrow>
            doc_move doc (Ref i (RString ''/0'' enc)) = (None, push e (doc\<lparr>where_p := 0\<rparr>)))"
proof (intro conjI impI)
  assume c: "current doc = Some leaf" and w: "where_p doc + 1 < length (where_path doc)"
  from move_step_array_first [OF c assms w]
  show "doc_move doc (Ref i (RString ''0'' enc)) = (None, push e doc)"
    and "doc_move doc (Ref i (RString ''1'' enc)) = (None, push e doc)"
    by (simp_all add: doc_move_def Check_String_def c_string_def NUL_def)
next
  assume r: "where_path doc ! 0 = Some leaf" and w: "1 < length (where_path doc)"
  then have "current (doc\<lparr>where_p := 0\<rparr>) = Some leaf"
    and "where_p (doc\<lparr>where_p := 0\<rparr>) + 1 < length (where_path (doc\<lparr>where_p := 0\<rparr>))"
    by (simp_all add: current_def)
  from move_step_array_first [OF this(1) assms this(2)]
  show "doc_move doc (Ref i (RString ''/0'' enc)) = (None, push e (doc\<lparr>where_p := 0\<rparr>))"
    by (simp add: doc_move_def Check_String_def c_string_def NUL_def)
qed

theorem move_zero_is_first_witness:
  "\<exists>doc. doc_open None id ''[7,8]'' = Some (Inr doc)
     \<and> fst (doc_move doc (Ref 0 (RString ''/0'' None))) = None
     \<and> doc_where (snd (doc_move doc (Ref 0 (RString ''/0'' None)))) = Inr ''/1''"
proof -
  let ?doc = "projr (the (doc_open None id ''[7,8]''))"
  let ?leaf = "the (data ?doc)"
  have 1: "doc_open None id ''[7,8]'' = Some (Inr ?doc)"
    by code_simp
  have 2: "value_type ?leaf = COL_VAL" "type ?leaf = T_ARRAY"
    "elements ?leaf = hd (elements ?leaf) # tl (elements ?leaf)"
    "where_path ?doc ! 0 = Some ?leaf" "1 < length (where_path ?doc)"
    by code_simp+
  have 3: "doc_where (push (hd (elements ?leaf)) (?doc\<lparr>where_p := 0\<rparr>)) = Inr ''/1''"
    by code_simp
  from move_zero_is_first [OF 2(1-3), THEN conjunct2, rule_format, OF 2(4,5)]
  have "doc_move ?doc (Ref 0 (RString ''/0'' None))
      = (None, push (hd (elements ?leaf)) (?doc\<lparr>where_p := 0\<rparr>))" .
  with 1 3 show ?thesis by auto
qed

text \<open>
  The claim of C7 fails on the array \<open>[7,8]\<close>: \<open>move("/0")\<close> raises nothing, and afterwards
  \<open>where?\<close> is \<open>/1\<close> and the current leaf is the number at offset 1 of the text, the 7.
\<close>

theorem move_zero_accepted:
  "doc_open None (\<lambda>doc. fst (doc_move doc (Ref 0 (RString ''/0'' None)))) ''[7,8]''
     = Some (Inr None)
   \<and> doc_open None (\<lambda>doc. doc_where (snd (doc_move doc (Ref 0 (RString ''/0'' None))))) ''[7,8]''
     = Some (Inr (Inr ''/1''))
   \<and> doc_open None (\<lambda>doc. map_option str (current (snd (doc_move doc (Ref 0 (RString ''/0'' None))))))
        ''[7,8]''
     = Some (Inr (Some 1))"
  by code_simp

section \<open>A move that fails\<close>

text \<open>What a failed walk has to leave as it was.\<close>

definition same_cursor :: "Doc \<Rightarrow> Doc \<Rightarrow> bool" where
  "same_cursor doc doc' =
     (where_p doc' = where_p doc \<and> cursor doc' = cursor doc
      \<and> length (where_path doc') = length (where_path doc)
      \<and> data doc' = data doc \<and> buf doc' = buf doc \<and> encoding doc' = encoding doc
      \<and> doc_size doc' = doc_size doc)"

lemma same_cursor_refl: "same_cursor doc doc"
  by (simp add: same_cursor_def)

lemma take_Suc_eq_take:
  assumes "take (Suc n) xs = take (Suc n) ys"
  shows "take n xs = take n ys"
proof -
  have "take n xs = take n (take (Suc n) xs)" by (simp add: min_def)
  also have "\<dots> = take n (take (Suc n) ys)" using assms by simp
  also have "\<dots> = take n ys" by (simp add: min_def)
  finally show ?thesis .
qed

lemma same_cursor_push_pop:
  assumes "same_cursor (push e doc) d"
  shows "same_cursor doc (pop d)"
proof -
  let ?n = "where_p doc"
  from assms have wp: "where_p d = Suc ?n"
    and rest: "length (where_path d) = length (where_path doc)" "data d = data doc"
      "buf d = buf doc" "encoding d = encoding doc" "doc_size d = doc_size doc"
    by (simp_all add: same_cursor_def push_def cursor_def)
  from assms have tk: "take (Suc (Suc ?n)) (where_path d)
         = take (Suc (Suc ?n)) ((where_path doc)[Suc ?n := Some e])"
    by (auto simp: same_cursor_def push_def cursor_def)
  from take_Suc_eq_take [OF tk] have "take (Suc ?n) (where_path d) = take (Suc ?n) (where_path doc)"
    by simp
  with wp rest show ?thesis
    by (simp add: same_cursor_def pop_def cursor_def)
qed

section \<open>The steps of a path\<close>

text \<open>
  The specification reads a path as steps separated by slashes: a step of digits is the
  position of a member in an array, counted from 1, any other step is the key of a member
  of an object. \<open>child\<close> is the member a step names at a leaf, as both resolvers of the
  code find it: at an array with members the step has to be a decimal number, and the
  numbers 0 and 1, and the empty step, name the first member; at an object with
  members it is the first member with that key; a leaf that is no collection, or has no
  member, has no child. \<open>walk\<close> follows a list of steps down from a leaf.
\<close>

definition digits :: "string \<Rightarrow> bool" where
  "digits k = list_all is_digit k"

fun decimal :: "nat \<Rightarrow> string \<Rightarrow> nat" where
  "decimal n [] = n"
| "decimal n (c # cs) = decimal (n * 10 + (of_char c - of_char CHR ''0'')) cs"

definition child :: "buffer \<Rightarrow> leaf \<Rightarrow> string \<Rightarrow> leaf option" where
  "child b l k =
     (if value_type l = COL_VAL \<and> elements l \<noteq> [] then
        (if type l = T_ARRAY then
           (if digits k \<and> decimal 0 k - 1 < length (elements l)
            then Some (elements l ! (decimal 0 k - 1)) else None)
         else if type l = T_HASH then find (\<lambda>e. cstr b (key e) = k) (elements l)
         else None)
      else None)"

fun walk :: "buffer \<Rightarrow> leaf \<Rightarrow> string list \<Rightarrow> leaf option" where
  "walk b l [] = Some l"
| "walk b l (k # ks) = (case child b l k of None \<Rightarrow> None | Some e \<Rightarrow> walk b e ks)"

lemma digit_word:
  assumes "is_digit c"
  shows "(of_char c :: 32 word) - of_char CHR ''0'' = of_nat (of_char c - of_char CHR ''0'')"
proof -
  from assms have "(of_char CHR ''0'' :: nat) \<le> of_char c"
    by (simp add: is_digit_def less_eq_char_def)
  then have "(of_nat (of_char c - of_char CHR ''0'') :: 32 word)
      = of_nat (of_char c) - of_nat (of_char CHR ''0'')"
    by (rule of_nat_diff)
  then show ?thesis by (simp only: of_nat_of_char)
qed

lemma read_index_rest:
  "rest = [] \<or> \<not> is_digit (hd rest) \<Longrightarrow> read_index cnt rest = (cnt, rest)"
  by (cases rest) auto

lemma read_index_decimal:
  assumes "digits k" "rest = [] \<or> \<not> is_digit (hd rest)"
  shows "read_index (of_nat n) (k @ rest) = (of_nat (decimal n k), rest)"
  using assms(1)
proof (induction k arbitrary: n)
  case Nil
  from assms(2) show ?case by (simp add: read_index_rest del: read_index.simps)
next
  case (Cons c k)
  then have d: "is_digit c" "digits k" by (simp_all add: digits_def)
  have "(of_nat n :: 32 word) * 10 + (of_char c - of_char CHR ''0'')
      = of_nat (n * 10 + (of_char c - of_char CHR ''0''))"
    using digit_word [OF d(1)] by simp
  with Cons.IH [OF d(2), of "n * 10 + (of_char c - of_char CHR ''0'')"] d(1)
  show ?case by simp
qed

lemma read_index_snd: "snd (read_index cnt p) = dropWhile is_digit p"
  by (induction cnt p rule: read_index.induct) auto

lemma sint_of_nat_small: "n < 2 ^ 31 \<Longrightarrow> sint (of_nat n :: 32 word) = int n"
  by (simp add: sint_uint take_bit_nat_eq_self unsigned_of_nat signed_take_bit_int_eq_self)

lemma ring_index_of_nat:
  "n < 2 ^ 31 \<Longrightarrow>
     ring_index (of_nat n :: 32 word) es = (if n - 1 < length es then Some (es ! (n - 1)) else None)"
proof (induction es arbitrary: n)
  case Nil
  then show ?case by simp
next
  case (Cons e es)
  show ?case
  proof (cases "n \<le> 1")
    case True
    with Cons.prems show ?thesis by (simp add: sint_of_nat_small)
  next
    case False
    then obtain m where m: "n = Suc (Suc m)"
      by (auto simp: not_le dest: less_imp_Suc_add)
    with Cons.prems have lt: "Suc m < 2 ^ 31" by simp
    have s: "\<not> sint (of_nat n :: 32 word) \<le> 1"
      using Cons.prems m by (simp add: sint_of_nat_small del: of_nat_Suc)
    have w: "(of_nat n :: 32 word) - 1 = of_nat (Suc m)"
      using m by simp
    from Cons.IH [OF lt] have "ring_index (of_nat (Suc m) :: 32 word) es
        = (if m < length es then Some (es ! m) else None)" by simp
    then have "ring_index ((of_nat n :: 32 word) - 1) es
        = (if m < length es then Some (es ! m) else None)" by (simp only: w)
    with s show ?thesis by (simp add: m del: of_nat_Suc)
  qed
qed

lemma cstr_no_NUL: "NUL \<notin> set (cstr b i)"
  by (auto simp: cstr_def dest: set_takeWhileD)

lemma key_matches_iff:
  assumes "NUL \<notin> set ekey"
  shows "key_matches (k @ rest) (length k) ekey \<longleftrightarrow> ekey = k"
proof
  assume "key_matches (k @ rest) (length k) ekey"
  then have t: "k = take (length k) ekey" and p: "peek ekey (length k) = NUL"
    by (simp_all add: key_matches_def strncmp_def)
  from p assms have "length ekey \<le> length k"
    by (auto simp: peek_def split: if_splits dest: nth_mem)
  with t show "ekey = k" by simp
next
  assume "ekey = k"
  then show "key_matches (k @ rest) (length k) ekey"
    by (simp add: key_matches_def strncmp_def peek_def)
qed

lemma ring_key_find:
  "ring_key b (k @ rest) (length k) es = find (\<lambda>e. cstr b (key e) = k) es"
  by (induction es) (simp_all add: key_matches_iff [OF cstr_no_NUL])

lemma key_len_step:
  assumes "CHR ''/'' \<notin> set k" "rest = [] \<or> hd rest = CHR ''/''"
  shows "key_len (k @ rest) = length k"
proof (cases rest)
  case Nil
  with key_len_all [OF assms(1)] show ?thesis by simp
next
  case (Cons c cs)
  with assms(2) have "rest = CHR ''/'' # cs" by simp
  then have "takeWhile (\<lambda>c. c \<noteq> CHR ''/'') (k @ rest) = takeWhile (\<lambda>c. c \<noteq> CHR ''/'') k"
    by (simp add: takeWhile_tail)
  with key_len_all [OF assms(1)] show ?thesis by (simp add: key_len_def)
qed

lemma after_key_step:
  "CHR ''/'' \<notin> set k \<Longrightarrow> after_key (k @ CHR ''/'' # p) = p"
  using key_len_step [of k "CHR ''/'' # p"] by (simp add: after_key_def)

lemma dotdot_step:
  assumes "\<not> dotdot k" "rest = [] \<or> hd rest = CHR ''/''"
  shows "\<not> dotdot (k @ rest)"
proof -
  consider "k = []" | a where "k = [a]" | a b cs where "k = a # b # cs"
    by (cases k rule: remdups_adj.cases) auto
  then show ?thesis
  proof cases
    case 1
    with assms(2) show ?thesis by (cases rest) (auto simp: dotdot_def)
  next
    case 2
    with assms(2) show ?thesis by (cases rest) (auto simp: dotdot_def)
  next
    case 3
    with assms(1) show ?thesis by (simp add: dotdot_def)
  qed
qed

lemma dotdot_append: "dotdot k \<Longrightarrow> dotdot (k @ rest)"
  by (cases k rule: remdups_adj.cases) (auto simp: dotdot_def)

lemma c_string_id: "NUL \<notin> set p \<Longrightarrow> c_string p = p"
  by (auto simp: c_string_def takeWhile_eq_all_conv)

section \<open>A move that misses a step\<close>

text \<open>
  \<open>move_step\<close> along the steps of a path: a step that names no child returns its own number
  and leaves the document as it is; a step that names a child pushes the child, and pops
  it again when the rest of the path fails.
\<close>

lemma read_index_junk:
  assumes "\<not> digits k" "CHR ''/'' \<notin> set k"
  shows "snd (read_index cnt (k @ rest)) \<noteq> [] \<and> hd (snd (read_index cnt (k @ rest))) \<noteq> CHR ''/''"
proof -
  from assms(1) obtain x where x: "x \<in> set k" "\<not> is_digit x"
    by (auto simp: digits_def list_all_iff)
  then have d: "dropWhile is_digit (k @ rest) = dropWhile is_digit k @ rest"
    by (auto intro: dropWhile_append1)
  from x have ne: "dropWhile is_digit k \<noteq> []" by (auto simp: dropWhile_eq_Nil_conv)
  then have "hd (dropWhile is_digit k) \<in> set k"
    using set_dropWhileD [of "hd (dropWhile is_digit k)" is_digit k] by simp
  with assms(2) have "hd (dropWhile is_digit k) \<noteq> CHR ''/''" by auto
  with ne d show ?thesis by (simp add: read_index_snd)
qed

lemma slash_no_digit: "rest = [] \<or> hd rest = CHR ''/'' \<Longrightarrow> rest = [] \<or> \<not> is_digit (hd rest)"
  by (auto simp: is_digit_def)

lemma move_step_miss:
  assumes cur: "current doc = Some l" and w: "where_p doc < length (where_path doc)"
    and miss: "child (buf doc) l k = None"
    and ne: "k @ rest \<noteq> []" and rest: "rest = [] \<or> hd rest = CHR ''/''"
    and k: "CHR ''/'' \<notin> set k" "\<not> dotdot k" "digits k \<longrightarrow> decimal 0 k < 2 ^ 31"
  shows "move_step doc (k @ rest) loc = Inr (loc, doc)"
proof -
  note nd = dotdot_step [OF k(2) rest]
  show ?thesis
  proof (cases "value_type l = COL_VAL \<and> elements l \<noteq> []")
    case False
    with cur w ne nd show ?thesis by (subst move_step.simps) auto
  next
    case col: True
    consider (arr) "type l = T_ARRAY" | (hash) "type l \<noteq> T_ARRAY" "type l = T_HASH"
      | (other) "type l \<noteq> T_ARRAY" "type l \<noteq> T_HASH" by blast
    then show ?thesis
    proof cases
      case other
      with cur w ne nd col show ?thesis by (subst move_step.simps) auto
    next
      case hash
      from miss col hash have "find (\<lambda>e. cstr (buf doc) (key e) = k) (elements l) = None"
        by (simp add: child_def)
      then have "ring_key (buf doc) (k @ rest) (key_len (k @ rest)) (elements l) = None"
        by (simp add: key_len_step [OF k(1) rest] ring_key_find)
      with cur w ne nd col hash show ?thesis by (subst move_step.simps) auto
    next
      case arr
      obtain cnt p' where ri: "read_index 0 (k @ rest) = (cnt, p')" by (cases "read_index 0 (k @ rest)")
      have "(p' \<noteq> [] \<and> hd p' \<noteq> CHR ''/'') \<or> ring_index cnt (elements l) = None"
      proof (cases "digits k")
        case False
        from read_index_junk [OF False k(1), of 0 rest] ri show ?thesis by simp
      next
        case True
        from read_index_decimal [OF True slash_no_digit [OF rest], of 0] ri
        have c: "cnt = of_nat (decimal 0 k)" by simp
        from miss col arr True have "\<not> decimal 0 k - 1 < length (elements l)"
          by (simp add: child_def split: if_splits)
        with True k(3) c show ?thesis by (simp add: ring_index_of_nat)
      qed
      with cur w ne nd col arr ri show ?thesis
        by (subst move_step.simps) (auto simp del: read_index.simps)
    qed
  qed
qed

lemma move_step_child:
  assumes cur: "current doc = Some l" and w: "where_p doc + 1 < length (where_path doc)"
    and ch: "child (buf doc) l k = Some e"
    and k: "CHR ''/'' \<notin> set k" "\<not> dotdot k" "digits k \<longrightarrow> decimal 0 k < 2 ^ 31"
  shows "move_step doc (k @ CHR ''/'' # p) loc =
     (case move_step (push e doc) p (loc + 1) of
        Inl err \<Rightarrow> Inl err
      | Inr (loc', doc') \<Rightarrow> if loc' \<noteq> 0 then Inr (loc', pop doc') else Inr (loc', doc'))"
proof -
  have rest: "CHR ''/'' # p = [] \<or> hd (CHR ''/'' # p) = CHR ''/''" by simp
  note nd = dotdot_step [OF k(2) rest]
  from w have w0: "where_p doc < length (where_path doc)" by simp
  from ch have col: "value_type l = COL_VAL \<and> elements l \<noteq> []"
    by (simp add: child_def split: if_splits)
  from ch col consider (arr) "type l = T_ARRAY" | (hash) "type l \<noteq> T_ARRAY" "type l = T_HASH"
    by (auto simp: child_def split: if_splits)
  then show ?thesis
  proof cases
    case hash
    from ch col hash have "find (\<lambda>e. cstr (buf doc) (key e) = k) (elements l) = Some e"
      by (simp add: child_def)
    then have "ring_key (buf doc) (k @ CHR ''/'' # p) (key_len (k @ CHR ''/'' # p)) (elements l)
        = Some e"
      by (simp add: key_len_step [OF k(1) rest] ring_key_find)
    with cur w w0 nd col hash show ?thesis
      by (subst move_step.simps) (simp add: after_key_step [OF k(1)])
  next
    case arr
    from ch col arr have d: "digits k" and i: "decimal 0 k - 1 < length (elements l)"
      and e: "e = elements l ! (decimal 0 k - 1)"
      by (auto simp: child_def split: if_splits)
    from read_index_decimal [OF d slash_no_digit [OF rest], of 0]
    have ri: "read_index 0 (k @ CHR ''/'' # p) = (of_nat (decimal 0 k), CHR ''/'' # p)" by simp
    from d k(3) i e have rg: "ring_index (of_nat (decimal 0 k) :: 32 word) (elements l) = Some e"
      by (simp add: ring_index_of_nat)
    from cur w w0 nd col arr show ?thesis
      by (subst move_step.simps) (simp add: ri rg del: read_index.simps)
  qed
qed

lemma current_push: "where_p doc + 1 < length (where_path doc) \<Longrightarrow> current (push e doc) = Some e"
  by (simp add: current_def push_def)

lemma move_step_walk:
  assumes "walk b l ks = Some l'" "current doc = Some l" "buf doc = b"
    "where_p doc + length ks < length (where_path doc)"
    "\<forall>s\<in>set (k # ks). CHR ''/'' \<notin> set s \<and> \<not> dotdot s \<and> (digits s \<longrightarrow> decimal 0 s < 2 ^ 31)"
    "0 < loc"
    "child b l' k = None" "k @ rest \<noteq> []" "rest = [] \<or> hd rest = CHR ''/''"
  shows "\<exists>doc'. move_step doc (concat (map (\<lambda>s. s @ ''/'') ks) @ k @ rest) loc
           = Inr (loc + int (length ks), doc') \<and> same_cursor doc doc'"
  using assms(1-6)
proof (induction ks arbitrary: doc l loc)
  case Nil
  then have "move_step doc (k @ rest) loc = Inr (loc, doc)"
    using assms(7,8,9) by (intro move_step_miss [where l = l']) simp_all
  then show ?case by (simp add: same_cursor_refl)
next
  case (Cons s ks)
  from Cons.prems(1,3) obtain e where e: "child (buf doc) l s = Some e"
    and wk: "walk b e ks = Some l'"
    by (auto split: option.splits)
  from Cons.prems(4) have w1: "where_p doc + 1 < length (where_path doc)" by simp
  have st: "move_step doc (s @ CHR ''/'' # (concat (map (\<lambda>s. s @ ''/'') ks) @ k @ rest)) loc =
     (case move_step (push e doc) (concat (map (\<lambda>s. s @ ''/'') ks) @ k @ rest) (loc + 1) of
        Inl err \<Rightarrow> Inl err
      | Inr (loc', doc') \<Rightarrow> if loc' \<noteq> 0 then Inr (loc', pop doc') else Inr (loc', doc'))"
    using Cons.prems(2) w1 e Cons.prems(5) by (intro move_step_child) simp_all
  have "\<exists>doc'. move_step (push e doc) (concat (map (\<lambda>s. s @ ''/'') ks) @ k @ rest) (loc + 1)
           = Inr (loc + 1 + int (length ks), doc') \<and> same_cursor (push e doc) doc'"
    using wk current_push [OF w1] Cons.prems(3,4,5,6)
    by (intro Cons.IH) (simp_all add: push_def)
  then obtain d where m: "move_step (push e doc) (concat (map (\<lambda>s. s @ ''/'') ks) @ k @ rest) (loc + 1)
           = Inr (loc + 1 + int (length ks), d)" and sc: "same_cursor (push e doc) d" by blast
  from Cons.prems(6) have "loc + 1 + int (length ks) \<noteq> 0" by simp
  with st m have "move_step doc (concat (map (\<lambda>s. s @ ''/'') (s # ks)) @ k @ rest) loc
      = Inr (loc + int (length (s # ks)), pop d)" by simp
  with same_cursor_push_pop [OF sc] show ?case by blast
qed

text \<open>
  The one fault of \<open>move_step\<close> is the step beyond the end of the path array, for which
  the code has no test ("TBD raise if too deep").
\<close>

lemma move_step_fault: "move_step doc path loc = Inl err \<Longrightarrow> err = StackOverflow"
proof (induction doc path loc rule: move_step.induct)
  case (1 doc path loc)
  note eq = "1.prems" [unfolded move_step.simps [of doc path loc]]
  show ?case
  proof (cases "path \<noteq> [] \<and> where_p doc < length (where_path doc)")
    case False
    with eq show ?thesis by (auto split: if_splits)
  next
    case True
    then have ne: "path \<noteq> []" and w: "where_p doc < length (where_path doc)" by auto
    show ?thesis
    proof (cases "current doc")
      case None
      with eq ne w show ?thesis by simp
    next
      case (Some leaf)
      show ?thesis
      proof (cases "dotdot path")
        case dd: True
        show ?thesis
        proof (cases "where_p doc = 0")
          case True
          with eq ne w Some dd show ?thesis by simp
        next
          case False
          with eq ne w Some dd
          have "move_step (pop doc) (skip_slash (drop 2 path)) (loc + 1) = Inl err"
            by (auto split: sum.splits if_splits)
          from "1.IH"(1) [OF ne _ Some dd False this] w show ?thesis by simp
        qed
      next
        case nd: False
        show ?thesis
        proof (cases "value_type leaf = COL_VAL \<and> elements leaf \<noteq> []")
          case False
          with eq ne w nd Some show ?thesis by auto
        next
          case col: True
          consider (arr) "type leaf = T_ARRAY" | (hash) "type leaf \<noteq> T_ARRAY" "type leaf = T_HASH"
            | (other) "type leaf \<noteq> T_ARRAY" "type leaf \<noteq> T_HASH" by blast
          then show ?thesis
          proof cases
            case other
            with eq ne w nd Some col show ?thesis by auto
          next
            case arr
            obtain cnt path' where ri: "(cnt, path') = read_index 0 path"
              by (metis surj_pair)
            show ?thesis
            proof (cases "path' \<noteq> [] \<and> hd path' \<noteq> CHR ''/''")
              case True
              with eq ne w nd Some col arr ri [symmetric] show ?thesis
                by (auto simp del: read_index.simps)
            next
              case ok: False
              show ?thesis
              proof (cases "ring_index cnt (elements leaf)")
                case None
                with eq ne w nd Some col arr ri [symmetric] ok show ?thesis
                  by (auto simp del: read_index.simps)
              next
                case (Some e)
                show ?thesis
                proof (cases "where_p doc + 1 < length (where_path doc)")
                  case False
                  with eq ne w nd \<open>current doc = Some leaf\<close> col arr ri [symmetric] ok Some
                  show ?thesis by (auto simp del: read_index.simps)
                next
                  case w1: True
                  with eq ne w nd \<open>current doc = Some leaf\<close> col arr ri [symmetric] ok Some
                  have "move_step (push e doc) (skip_slash path') (loc + 1) = Inl err"
                    by (auto simp del: read_index.simps split: if_splits sum.splits)
                  from "1.IH"(2) [OF ne _ \<open>current doc = Some leaf\<close> nd col arr ri ok Some w1 this]
                    w show ?thesis by simp
                qed
              qed
            qed
          next
            case hash
            show ?thesis
            proof (cases "ring_key (buf doc) path (key_len path) (elements leaf)")
              case None
              with eq ne w nd Some col hash show ?thesis by auto
            next
              case (Some e)
              show ?thesis
              proof (cases "where_p doc + 1 < length (where_path doc)")
                case False
                with eq ne w nd \<open>current doc = Some leaf\<close> col hash Some
                show ?thesis by auto
              next
                case w1: True
                with eq ne w nd \<open>current doc = Some leaf\<close> col hash Some
                have "move_step (push e doc) (after_key path) (loc + 1) = Inl err"
                  by (auto split: if_splits sum.splits)
                from "1.IH"(3) [OF ne _ \<open>current doc = Some leaf\<close> nd col hash(1) hash(2) Some w1 this]
                  w show ?thesis by simp
              qed
            qed
          qed
        qed
      qed
    qed
  qed
qed

text \<open>
  C2 (as the code has it). Let the path be the steps \<open>ks\<close>, each followed by a slash, then
  the step \<open>k\<close> and whatever follows it (nothing, or a slash and more); for an absolute path
  a slash stands before it. Let the steps \<open>ks\<close> lead down, none of them being \<open>..\<close>, from
  the leaf the walk starts on (the current leaf, or the root for an absolute path) to a
  leaf \<open>l\<close>, and let the step \<open>k\<close> fail there: it names no child of \<open>l\<close> (a key no member
  has, an index beyond the members or a step that is no number at an array, any step at
  a scalar or at a collection without members), or it is \<open>..\<close> as the first step at the
  root. Then \<open>move\<close> raises the ArgumentError of \<open>doc_move\<close> with the number of the step
  \<open>k\<close>, counted from 1, and the path behind the leading slash. After a relative path the
  document is as it was before the call up to the entries of the path array above the
  cursor: the cursor stack is the same. After an absolute path \<open>where\<close> is at the root,
  where \<open>doc_move\<close> has set it before the walk, and the cursor stack is the root entry alone.
  The steps \<open>ks\<close> have room in the path array, and an index is below \<open>2^31\<close>.
\<close>

theorem doc_move_failure:
  assumes steps: "p = concat (map (\<lambda>s. s @ ''/'') ks) @ k @ rest"
    and rest: "k @ rest \<noteq> []" "rest = [] \<or> hd rest = CHR ''/''"
    and chars: "NUL \<notin> set p"
      "\<forall>s\<in>set (k # ks). CHR ''/'' \<notin> set s \<and> (digits s \<longrightarrow> decimal 0 s < 2 ^ 31)"
    and down: "\<forall>s\<in>set ks. \<not> dotdot s"
    and start: "p0 = (if absolute then 0 else where_p doc)" "where_path doc ! p0 = Some l0"
      "p0 + length ks < length (where_path doc)"
    and rel: "\<not> absolute \<longrightarrow> hd p \<noteq> CHR ''/''"
    and walk: "walk (buf doc) l0 ks = Some l"
    and miss: "if dotdot k then ks = [] \<and> p0 = 0 else child (buf doc) l k = None"
  shows "\<exists>doc'. doc_move doc (Ref i (RString (if absolute then CHR ''/'' # p else p) enc))
            = (Some (LocateError (int (length ks) + 1) p), doc')
          \<and> where_p doc' = p0 \<and> cursor doc' = take (p0 + 1) (where_path doc)
          \<and> same_cursor (doc\<lparr>where_p := p0\<rparr>) doc'"
proof -
  let ?doc = "doc\<lparr>where_p := p0\<rparr>"
  have cur: "current ?doc = Some l0" using start(2) by (simp add: current_def)
  have pne: "p \<noteq> []" using steps rest(1) by auto
  have "\<exists>doc'. move_step ?doc p 1 = Inr (1 + int (length ks), doc') \<and> same_cursor ?doc doc'"
  proof (cases "dotdot k")
    case True
    with miss have ks: "ks = []" and p0: "p0 = 0" by simp_all
    from True ks steps have dd: "dotdot p" by (simp add: dotdot_append)
    from start(3) have "where_p ?doc < length (where_path ?doc)" by simp
    with cur dd pne p0 have "move_step ?doc p 1 = Inr (1, ?doc)"
      by (subst move_step.simps) simp
    with ks show ?thesis by (simp add: same_cursor_refl)
  next
    case False
    with miss have m: "child (buf doc) l k = None" by simp
    from False chars(2) down
    have c: "\<forall>s\<in>set (k # ks). CHR ''/'' \<notin> set s \<and> \<not> dotdot s
        \<and> (digits s \<longrightarrow> decimal 0 s < 2 ^ 31)" by auto
    have "\<exists>doc'. move_step ?doc (concat (map (\<lambda>s. s @ ''/'') ks) @ k @ rest) 1
           = Inr (1 + int (length ks), doc') \<and> same_cursor ?doc doc'"
      using walk cur _ _ c _ m rest by (rule move_step_walk) (use start(3) in simp_all)
    with steps show ?thesis by simp
  qed
  then obtain doc' where ms: "move_step ?doc p 1 = Inr (1 + int (length ks), doc')"
    and sc: "same_cursor ?doc doc'" by blast
  have arg: "Check_String (Ref i (RString (if absolute then CHR ''/'' # p else p) enc))
      = Inr (if absolute then CHR ''/'' # p else p)"
    using chars(1) by (simp add: Check_String_def c_string_id NUL_def)
  have "doc_move doc (Ref i (RString (if absolute then CHR ''/'' # p else p) enc))
      = (Some (LocateError (int (length ks) + 1) p), doc')"
  proof (cases absolute)
    case True
    with start(1) have "p0 = 0" by simp
    with True ms arg show ?thesis by (simp add: doc_move_def)
  next
    case False
    with start(1) have "?doc = doc" by simp
    with False ms arg rel pne show ?thesis by (simp add: doc_move_def)
  qed
  moreover from sc have "where_p doc' = p0" "cursor doc' = take (p0 + 1) (where_path doc)"
    by (auto simp: same_cursor_def cursor_def)
  ultimately show ?thesis using sc by blast
qed

theorem doc_move_failure_witness:
  "\<exists>doc doc1 doc2. doc_open None id ''[1,[2,[3]]]'' = Some (Inr doc)
     \<and> doc_move doc (Ref 0 (RString ''/2'' None)) = (None, doc1) \<and> where_p doc1 = 1
     \<and> doc_move doc1 (Ref 0 (RString ''2/9'' None)) = (Some (LocateError 2 ''2/9''), doc2)
     \<and> where_p doc2 = 1 \<and> cursor doc2 = cursor doc1"
proof -
  let ?doc = "projr (the (doc_open None id ''[1,[2,[3]]]''))"
  let ?doc1 = "snd (doc_move ?doc (Ref 0 (RString ''/2'' None)))"
  let ?from = "the (where_path ?doc1 ! 1)"
  let ?at = "the (walk (buf ?doc1) ?from [''2''])"
  have 1: "doc_open None id ''[1,[2,[3]]]'' = Some (Inr ?doc)"
    by code_simp
  have 2: "doc_move ?doc (Ref 0 (RString ''/2'' None)) = (None, ?doc1)"
    by code_simp
  have 3: "where_p ?doc1 = 1"
    by code_simp
  have steps: "''2/9'' = concat (map (\<lambda>s. s @ ''/'') [''2'']) @ ''9'' @ []"
    by simp
  have rest: "''9'' @ [] \<noteq> []" "[] = [] \<or> hd [] = CHR ''/''"
    by simp_all
  have chars: "NUL \<notin> set ''2/9''"
    "\<forall>s\<in>set [''9'', ''2'']. CHR ''/'' \<notin> set s \<and> (digits s \<longrightarrow> decimal 0 s < 2 ^ 31)"
    by (simp_all add: NUL_def)
  have down: "\<forall>s\<in>set [''2'']. \<not> dotdot s"
    by code_simp
  have s1: "1 = (if False then 0 else where_p ?doc1)"
    by code_simp
  have s2: "where_path ?doc1 ! 1 = Some ?from"
    by code_simp
  have s3: "1 + length [''2''] < length (where_path ?doc1)"
    by code_simp
  note start = s1 s2 s3
  have rel: "\<not> False \<longrightarrow> hd ''2/9'' \<noteq> CHR ''/''"
    by simp
  have wk: "walk (buf ?doc1) ?from [''2''] = Some ?at"
    by code_simp
  have miss: "if dotdot ''9'' then [''2''] = [] \<and> (1::nat) = 0 else child (buf ?doc1) ?at ''9'' = None"
    by code_simp
  note th = doc_move_failure [OF steps rest chars down start rel wk miss, of 0 None]
  have e: "int (length [''2'']) + 1 = 2" "(1::nat) + 1 = 2"
    by simp_all
  from th [unfolded if_False e]
  obtain doc2 where "doc_move ?doc1 (Ref 0 (RString ''2/9'' None))
      = (Some (LocateError 2 ''2/9''), doc2)" "where_p doc2 = 1"
    "cursor doc2 = take 2 (where_path ?doc1)"
    by blast
  moreover have "cursor ?doc1 = take 2 (where_path ?doc1)"
    using 3 by (simp add: cursor_def numeral_2_eq_2)
  ultimately show ?thesis using 1 2 3 by metis
qed

text \<open>
  The claim of C2 fails for an absolute path: in \<open>[1,2]\<close>, after \<open>move("/1")\<close> the cursor is
  one level below the root; \<open>move("/5")\<close> then fails at step 1 and leaves the cursor at the
  root.
\<close>

theorem doc_move_absolute_failure:
  "doc_open None
     (\<lambda>doc. (fst (doc_move (snd (doc_move doc (Ref 0 (RString ''/1'' None))))
                    (Ref 0 (RString ''/5'' None))),
             where_p (snd (doc_move doc (Ref 0 (RString ''/1'' None)))),
             where_p (snd (doc_move (snd (doc_move doc (Ref 0 (RString ''/1'' None))))
                    (Ref 0 (RString ''/5'' None))))))
     ''[1,2]''
   = Some (Inr (Some (LocateError 1 ''5''), 1, 0))"
  by code_simp

text \<open>
  After a step \<open>..\<close> the code restores in the order \<open>*doc->where = init; doc->where++;\<close>:
  in \<open>[1,2]\<close> at \<open>/1\<close>, the failed \<open>move("../5")\<close> leaves the first member in the place of
  the root and a null current leaf.
\<close>

lemma doc_move_dotdot_failure:
  "doc_open None
     (\<lambda>doc. (fst (doc_move (snd (doc_move doc (Ref 0 (RString ''/1'' None))))
                    (Ref 0 (RString ''../5'' None))),
             map (map_option str) (cursor (snd (doc_move doc (Ref 0 (RString ''/1'' None))))),
             map (map_option str)
               (cursor (snd (doc_move (snd (doc_move doc (Ref 0 (RString ''/1'' None))))
                    (Ref 0 (RString ''../5'' None)))))))
     ''[1,2]''
   = Some (Inr (Some (LocateError 2 ''../5''), [Some 0, Some 1], [Some 1, None]))"
  by code_simp

section \<open>A fetch that misses a step\<close>

text \<open>
  \<open>get_leaf\<close> along the steps of a path: at a collection with members a step that names
  no child ends the walk with the null leaf; at a leaf that is no collection, or has no
  member, the walk ends with that leaf, whatever is left of the path.
\<close>

lemma get_leaf_miss:
  assumes top: "stack ! lp = Some l"
    and miss: "child b l k = None"
    and ne: "k @ rest \<noteq> []" and rest: "rest = [] \<or> hd rest = CHR ''/''"
    and k: "CHR ''/'' \<notin> set k" "\<not> dotdot k" "digits k \<longrightarrow> decimal 0 k < 2 ^ 31"
    and num: "value_type l = COL_VAL \<and> elements l \<noteq> [] \<and> type l = T_ARRAY \<longrightarrow> digits k"
  shows "get_leaf b stack lp (k @ rest)
     = (if value_type l = COL_VAL \<and> elements l \<noteq> [] then Inr None else Inr (Some l))"
proof -
  note nd = dotdot_step [OF k(2) rest]
  show ?thesis
  proof (cases "value_type l = COL_VAL \<and> elements l \<noteq> []")
    case False
    with top ne nd show ?thesis by (subst get_leaf.simps) auto
  next
    case col: True
    consider (arr) "type l = T_ARRAY" | (hash) "type l \<noteq> T_ARRAY" "type l = T_HASH"
      | (other) "type l \<noteq> T_ARRAY" "type l \<noteq> T_HASH" by blast
    then show ?thesis
    proof cases
      case other
      with top ne nd col show ?thesis by (subst get_leaf.simps) auto
    next
      case hash
      from miss col hash have "find (\<lambda>e. cstr b (key e) = k) (elements l) = None"
        by (simp add: child_def)
      then have "ring_key b (k @ rest) (key_len (k @ rest)) (elements l) = None"
        by (simp add: key_len_step [OF k(1) rest] ring_key_find)
      with top ne nd col hash show ?thesis by (subst get_leaf.simps) auto
    next
      case arr
      with num col have d: "digits k" by simp
      from read_index_decimal [OF d slash_no_digit [OF rest], of 0]
      have ri: "read_index 0 (k @ rest) = (of_nat (decimal 0 k), rest)" by simp
      from miss col arr d have "\<not> decimal 0 k - 1 < length (elements l)"
        by (simp add: child_def split: if_splits)
      with d k(3) have "ring_index (of_nat (decimal 0 k) :: 32 word) (elements l) = None"
        by (simp add: ring_index_of_nat)
      with top ne nd col arr ri show ?thesis
        by (subst get_leaf.simps) (auto simp del: read_index.simps)
    qed
  qed
qed

lemma get_leaf_child:
  assumes top: "stack ! lp = Some l" and w: "lp + 1 < length stack"
    and ch: "child b l k = Some e"
    and k: "CHR ''/'' \<notin> set k" "\<not> dotdot k" "digits k \<longrightarrow> decimal 0 k < 2 ^ 31"
  shows "get_leaf b stack lp (k @ CHR ''/'' # p) = get_leaf b (stack[lp + 1 := Some e]) (lp + 1) p"
proof -
  have rest: "CHR ''/'' # p = [] \<or> hd (CHR ''/'' # p) = CHR ''/''" by simp
  note nd = dotdot_step [OF k(2) rest]
  from ch have col: "value_type l = COL_VAL \<and> elements l \<noteq> []"
    by (simp add: child_def split: if_splits)
  from ch col consider (arr) "type l = T_ARRAY" | (hash) "type l \<noteq> T_ARRAY" "type l = T_HASH"
    by (auto simp: child_def split: if_splits)
  then show ?thesis
  proof cases
    case hash
    from ch col hash have "find (\<lambda>e. cstr b (key e) = k) (elements l) = Some e"
      by (simp add: child_def)
    then have "ring_key b (k @ CHR ''/'' # p) (key_len (k @ CHR ''/'' # p)) (elements l) = Some e"
      by (simp add: key_len_step [OF k(1) rest] ring_key_find)
    with top w nd col hash show ?thesis
      by (subst get_leaf.simps) (simp add: after_key_step [OF k(1)])
  next
    case arr
    from ch col arr have d: "digits k" and i: "decimal 0 k - 1 < length (elements l)"
      and e: "e = elements l ! (decimal 0 k - 1)"
      by (auto simp: child_def split: if_splits)
    from read_index_decimal [OF d slash_no_digit [OF rest], of 0]
    have ri: "read_index 0 (k @ CHR ''/'' # p) = (of_nat (decimal 0 k), CHR ''/'' # p)" by simp
    from d k(3) i e have rg: "ring_index (of_nat (decimal 0 k) :: 32 word) (elements l) = Some e"
      by (simp add: ring_index_of_nat)
    from top w nd col arr show ?thesis
      by (subst get_leaf.simps) (simp add: ri rg del: read_index.simps)
  qed
qed

lemma get_leaf_walk:
  assumes "walk b l ks = Some l'" "stack ! lp = Some l" "lp + length ks < length stack"
    "\<forall>s\<in>set (k # ks). CHR ''/'' \<notin> set s \<and> \<not> dotdot s \<and> (digits s \<longrightarrow> decimal 0 s < 2 ^ 31)"
    "child b l' k = None" "k @ rest \<noteq> []" "rest = [] \<or> hd rest = CHR ''/''"
    "value_type l' = COL_VAL \<and> elements l' \<noteq> [] \<and> type l' = T_ARRAY \<longrightarrow> digits k"
  shows "get_leaf b stack lp (concat (map (\<lambda>s. s @ ''/'') ks) @ k @ rest)
     = (if value_type l' = COL_VAL \<and> elements l' \<noteq> [] then Inr None else Inr (Some l'))"
  using assms(1-4)
proof (induction ks arbitrary: stack lp l)
  case Nil
  then have "get_leaf b stack lp (k @ rest)
      = (if value_type l' = COL_VAL \<and> elements l' \<noteq> [] then Inr None else Inr (Some l'))"
    using assms(5-8) by (intro get_leaf_miss [where k = k and rest = rest]) simp_all
  then show ?case by simp
next
  case (Cons s ks)
  from Cons.prems(1) obtain e where e: "child b l s = Some e" and wk: "walk b e ks = Some l'"
    by (auto split: option.splits)
  from Cons.prems(3) have w1: "lp + 1 < length stack" by simp
  have st: "get_leaf b stack lp (s @ CHR ''/'' # (concat (map (\<lambda>s. s @ ''/'') ks) @ k @ rest))
      = get_leaf b (stack[lp + 1 := Some e]) (lp + 1) (concat (map (\<lambda>s. s @ ''/'') ks) @ k @ rest)"
    using Cons.prems(2) w1 e Cons.prems(4) by (intro get_leaf_child) simp_all
  have "get_leaf b (stack[lp + 1 := Some e]) (lp + 1) (concat (map (\<lambda>s. s @ ''/'') ks) @ k @ rest)
      = (if value_type l' = COL_VAL \<and> elements l' \<noteq> [] then Inr None else Inr (Some l'))"
    using wk w1 Cons.prems(3,4) by (intro Cons.IH) simp_all
  with st show ?case by simp
qed

text \<open>
  C9. The code does not do what the claim says for a path that goes on below a scalar or
  below a collection without members. Let the path be a slash, the steps \<open>ks\<close>, each
  followed by a slash, then the step \<open>k\<close> and whatever follows it; let the steps \<open>ks\<close> lead
  down from the root to a leaf \<open>l\<close>, and let \<open>k\<close> name no child of \<open>l\<close> (or be \<open>..\<close> at the
  root), so that the path names no leaf. When \<open>l\<close> is an array or an object with members
  (an index beyond the members, a key no member has), or the step is \<open>..\<close> at the root,
  \<open>fetch\<close> returns its second argument, or \<open>nil\<close> without one, raises nothing and makes
  nothing. When \<open>l\<close> is a scalar or has no member, \<open>get_leaf\<close> returns \<open>l\<close> and \<open>fetch\<close>
  returns the value of \<open>l\<close>, not its second argument. (At an array the step is a number:
  \<open>get_leaf\<close> reads the digits a step starts with and takes what follows them for the
  next step.) In either case the cursor is as it was: the document is an argument of
  \<open>doc_fetch\<close> and not among its results, the resolver walks on its own array, and
  neither function assigns \<open>where\<close> or an entry of \<open>where_path\<close>.
\<close>

theorem doc_fetch_missing_step:
  assumes steps: "p = concat (map (\<lambda>s. s @ ''/'') ks) @ k @ rest"
    and rest: "k @ rest \<noteq> []" "rest = [] \<or> hd rest = CHR ''/''"
    and chars: "NUL \<notin> set p"
      "\<forall>s\<in>set (k # ks). CHR ''/'' \<notin> set s \<and> (digits s \<longrightarrow> decimal 0 s < 2 ^ 31)"
    and down: "\<forall>s\<in>set ks. \<not> dotdot s"
    and root: "data doc = Some l0" and room: "length ks < MAX_STACK"
    and walk: "walk (buf doc) l0 ks = Some l"
    and miss: "if dotdot k then ks = [] else child (buf doc) l k = None"
    and num: "value_type l = COL_VAL \<and> elements l \<noteq> [] \<and> type l = T_ARRAY \<longrightarrow> digits k"
  shows "doc_fetch dbl garbage doc [Ref i (RString (CHR ''/'' # p) enc), dflt] h =
           (if dotdot k \<or> value_type l = COL_VAL \<and> elements l \<noteq> [] then Inr (dflt, None, h)
            else (case leaf_value dbl doc l h of
                    Inl e \<Rightarrow> Inl e
                  | Inr (v, l', h') \<Rightarrow> Inr (v, Some l', h')))
     \<and> doc_fetch dbl garbage doc [Ref i (RString (CHR ''/'' # p) enc)] h =
           (if dotdot k \<or> value_type l = COL_VAL \<and> elements l \<noteq> [] then Inr (Qnil, None, h)
            else (case leaf_value dbl doc l h of
                    Inl e \<Rightarrow> Inl e
                  | Inr (v, l', h') \<Rightarrow> Inr (v, Some l', h')))"
proof -
  let ?stack = "(local_array garbage)[0 := data doc]"
  have len: "length ?stack = MAX_STACK" by (simp add: local_array_def)
  have top: "?stack ! 0 = Some l0" using root len by (simp add: MAX_STACK_def)
  have pne: "p \<noteq> []" using steps rest(1) by auto
  have g: "get_leaf (buf doc) ?stack 0 p
      = (if dotdot k \<or> value_type l = COL_VAL \<and> elements l \<noteq> [] then Inr None else Inr (Some l))"
  proof (cases "dotdot k")
    case True
    with miss steps have "dotdot p" by (simp add: dotdot_append)
    with pne True show ?thesis by (subst get_leaf.simps) simp
  next
    case False
    with miss have m: "child (buf doc) l k = None" by simp
    from False chars(2) down
    have c: "\<forall>s\<in>set (k # ks). CHR ''/'' \<notin> set s \<and> \<not> dotdot s
        \<and> (digits s \<longrightarrow> decimal 0 s < 2 ^ 31)" by auto
    have "get_leaf (buf doc) ?stack 0 (concat (map (\<lambda>s. s @ ''/'') ks) @ k @ rest)
        = (if value_type l = COL_VAL \<and> elements l \<noteq> [] then Inr None else Inr (Some l))"
      using walk top _ c m rest num by (rule get_leaf_walk) (use room len in simp)
    with steps False show ?thesis by simp
  qed
  have arg: "Check_String (Ref i (RString (CHR ''/'' # p) enc)) = Inr (CHR ''/'' # p)"
    using chars(1) by (simp add: Check_String_def c_string_id NUL_def)
  from root g have "get_doc_leaf garbage doc (Some (CHR ''/'' # p))
      = (if dotdot k \<or> value_type l = COL_VAL \<and> elements l \<noteq> [] then Inr None else Inr (Some l))"
    by (simp add: get_doc_leaf_def)
  with arg show ?thesis by (simp add: doc_fetch_def)
qed

theorem doc_fetch_missing_step_witness:
  "\<exists>doc. doc_open None id ''[1,2]'' = Some (Inr doc)
     \<and> fetched (doc_fetch (\<lambda>x. None) [] doc [Ref 0 (RString ''/1/x'' None), Fixnum 99] 1)
         = Inr (Fixnum 1)
     \<and> fetched (doc_fetch (\<lambda>x. None) [] doc [Ref 0 (RString ''/5'' None), Fixnum 99] 1)
         = Inr (Fixnum 99)"
proof -
  let ?doc = "projr (the (doc_open None id ''[1,2]''))"
  let ?root = "the (data ?doc)"
  let ?one = "the (walk (buf ?doc) ?root [''1''])"
  have 1: "doc_open None id ''[1,2]'' = Some (Inr ?doc)"
    by code_simp
  have root: "data ?doc = Some ?root"
    by code_simp
  have room: "length [''1''] < MAX_STACK" "length ([] :: string list) < MAX_STACK"
    by (simp_all add: MAX_STACK_def)
  have a: "''1/x'' = concat (map (\<lambda>s. s @ ''/'') [''1'']) @ ''x'' @ []"
    "''x'' @ [] \<noteq> []" "[] = [] \<or> hd [] = CHR ''/''" "NUL \<notin> set ''1/x''"
    "\<forall>s\<in>set [''x'', ''1'']. CHR ''/'' \<notin> set s \<and> (digits s \<longrightarrow> decimal 0 s < 2 ^ 31)"
    "\<forall>s\<in>set [''1'']. \<not> dotdot s"
    by (simp_all add: NUL_def dotdot_def)
  have wa: "walk (buf ?doc) ?root [''1''] = Some ?one"
    by code_simp
  have ma: "if dotdot ''x'' then [''1''] = [] else child (buf ?doc) ?one ''x'' = None"
    by code_simp
  have na: "value_type ?one = COL_VAL \<and> elements ?one \<noteq> [] \<and> type ?one = T_ARRAY \<longrightarrow> digits ''x''"
    by code_simp
  have sa: "\<not> (dotdot ''x'' \<or> value_type ?one = COL_VAL \<and> elements ?one \<noteq> [])"
    by code_simp
  have va: "fst (projr (leaf_value (\<lambda>x. None) ?doc ?one 1)) = Fixnum 1"
    "isl (leaf_value (\<lambda>x. None) ?doc ?one 1) = False"
    by code_simp+
  have b: "''5'' = concat (map (\<lambda>s. s @ ''/'') []) @ ''5'' @ []"
    "''5'' @ [] \<noteq> []" "NUL \<notin> set ''5''"
    "\<forall>s\<in>set [''5'']. CHR ''/'' \<notin> set s \<and> (digits s \<longrightarrow> decimal 0 s < 2 ^ 31)"
    "\<forall>s\<in>set ([] :: string list). \<not> dotdot s"
    by (simp_all add: NUL_def)
  have wb: "walk (buf ?doc) ?root [] = Some ?root"
    by simp
  have mb: "if dotdot ''5'' then ([] :: string list) = [] else child (buf ?doc) ?root ''5'' = None"
    by code_simp
  have nb: "value_type ?root = COL_VAL \<and> elements ?root \<noteq> [] \<and> type ?root = T_ARRAY
      \<longrightarrow> digits ''5''"
    by (simp add: digits_def is_digit_def)
  have sb: "dotdot ''5'' \<or> value_type ?root = COL_VAL \<and> elements ?root \<noteq> []"
    by code_simp
  note A = doc_fetch_missing_step [OF a(1,2,3,4,5,6) root room(1) wa ma na,
      of "\<lambda>x. None" "[]" 0 None "Fixnum 99" 1, THEN conjunct1]
  note B = doc_fetch_missing_step [OF b(1,2) a(3) b(3,4,5) root room(2) wb mb nb,
      of "\<lambda>x. None" "[]" 0 None "Fixnum 99" 1, THEN conjunct1]
  from A sa va have "fetched (doc_fetch (\<lambda>x. None) [] ?doc [Ref 0 (RString ''/1/x'' None), Fixnum 99] 1)
      = Inr (Fixnum 1)"
    by (cases "leaf_value (\<lambda>x. None) ?doc ?one 1") (auto simp: fetched_def)
  moreover from B sb have "fetched (doc_fetch (\<lambda>x. None) [] ?doc [Ref 0 (RString ''/5'' None), Fixnum 99] 1)
      = Inr (Fixnum 99)"
    by (simp add: fetched_def)
  ultimately show ?thesis using 1 by blast
qed

text \<open>
  \<open>move\<close> fails on the same path, at its second step; and the step \<open>x\<close> at an array,
  which \<open>move\<close> refuses, is for \<open>fetch\<close> the first member.
\<close>

lemma doc_move_below_scalar:
  "doc_open None (\<lambda>doc. fst (doc_move doc (Ref 0 (RString ''/1/x'' None)))) ''[1,2]''
     = Some (Inr (Some (LocateError 2 ''1/x'')))
   \<and> doc_open None (\<lambda>doc. fst (doc_move doc (Ref 0 (RString ''/x'' None)))) ''[1,2]''
     = Some (Inr (Some (LocateError 1 ''x'')))
   \<and> doc_open None
       (\<lambda>doc. fetched (doc_fetch (\<lambda>x. None) [] doc [Ref 0 (RString ''/x'' None), Fixnum 99] 1))
       ''[1,2]''
     = Some (Inr (Inr (Fixnum 1)))"
  by code_simp

text \<open>
  For a relative path \<open>get_doc_leaf\<close> starts on the entry of its array at the depth of the
  cursor, which it has not written: what \<open>fetch\<close> does then depends on what the array
  holds. When the entry is null, \<open>get_leaf\<close> reads the members of the null leaf.
\<close>

lemma doc_fetch_relative_path:
  "doc_open None
     (\<lambda>doc. fetched (doc_fetch (\<lambda>x. None) [] doc [Ref 0 (RString ''5'' None), Fixnum 99] 1))
     ''[1,2]''
   = Some (Inr (Inl NullLeaf))"
  by code_simp

section \<open>The path of a leaf\<close>

text \<open>
  A block for \<open>each_leaf\<close> that asks \<open>where?\<close>, fetches the current leaf (\<open>fetch\<close> without a
  path), and fetches the path \<open>where?\<close> returned.
\<close>

definition where_and_fetch ::
  "Doc \<Rightarrow> (error + string) \<times> (error + VALUE) \<times> (error + VALUE)" where
  "where_and_fetch d =
     (doc_where d,
      fetched (doc_fetch (\<lambda>x. None) [] d [] 1),
      (case doc_where d of
         Inl e \<Rightarrow> Inl e
       | Inr p \<Rightarrow> fetched (doc_fetch (\<lambda>x. None) [] d [Ref 0 (RString p None)] 1)))"

text \<open>
  C1. The claim: at every leaf \<open>each_leaf\<close> yields, \<open>fetch\<close> of the path \<open>where?\<close> returns is
  the value of that leaf. \<open>each_leaf\<close> moves \<open>where\<close> up before the loop over the members of
  a collection and never down again, so a leaf that comes after a collection among its
  siblings is written one level too deep. In \<open>[[2,1],3]\<close> the third leaf yielded is the 3,
  \<open>where?\<close> says \<open>/1/2\<close>, and \<open>fetch("/1/2")\<close> is 1. The example of the source, \<open>[3,[2,1]]\<close>,
  has its collection last and comes out right.
\<close>

theorem each_leaf_where_drifts:
  "doc_open None (\<lambda>doc. map_sum id fst (doc_each_leaf where_and_fetch doc [])) ''[[2,1],3]''
     = Some (Inr (Inr [(Inr ''/1/1'', Inr (Fixnum 2), Inr (Fixnum 2)),
                       (Inr ''/1/2'', Inr (Fixnum 1), Inr (Fixnum 1)),
                       (Inr ''/1/2'', Inr (Fixnum 3), Inr (Fixnum 1))]))
   \<and> doc_open None (\<lambda>doc. map_sum id fst (doc_each_leaf where_and_fetch doc [])) ''[3,[2,1]]''
     = Some (Inr (Inr [(Inr ''/1'', Inr (Fixnum 3), Inr (Fixnum 3)),
                       (Inr ''/2/1'', Inr (Fixnum 2), Inr (Fixnum 2)),
                       (Inr ''/2/2'', Inr (Fixnum 1), Inr (Fixnum 1))]))"
  by code_simp

section \<open>Materialising twice\<close>

text \<open>A second materialisation finds an equal value and leaves the leaf as it is.\<close>

definition again :: "(string \<Rightarrow> 64 word option) \<Rightarrow> Doc \<Rightarrow> VALUE \<Rightarrow> leaf \<Rightarrow> bool" where
  "again dbl doc v leaf =
     (\<forall>h. \<exists>v' h'. leaf_value dbl doc leaf h = Inr (v', leaf, h') \<and> erase v' = erase v)"

lemma leaf_value_key: "leaf_value dbl doc leaf h = Inr (v, leaf', h') \<Longrightarrow> key leaf' = key leaf"
  by (cases leaf)
    (auto simp: leaf_fixnum_value_def leaf_float_value_def rb_str_new2_def Let_def
      split: if_splits ltype.splits sum.splits prod.splits option.splits)

lemma rb_hash_aset_erase:
  assumes "map (map_prod erase erase) kvs2 = map (map_prod erase erase) kvs"
    and "erase k2 = erase k" "erase v2 = erase v"
  shows "map (map_prod erase erase) (rb_hash_aset kvs2 k2 v2)
     = map (map_prod erase erase) (rb_hash_aset kvs k v)"
  using assms
proof (induction kvs arbitrary: kvs2)
  case Nil
  then show ?case by simp
next
  case (Cons kv kvs)
  then obtain kv2 kvs2' where k: "kvs2 = kv2 # kvs2'" by (cases kvs2) auto
  with Cons show ?case
    by (cases kv; cases kv2) (auto simp: rb_equal_def)
qed

lemma array_elements_again:
  assumes "\<And>e v e' h h'. e \<in> set es \<Longrightarrow> leaf_value dbl doc e h = Inr (v, e', h')
      \<Longrightarrow> again dbl doc v e'"
    and "leaf_array_elements dbl doc es h = Inr (vs, es', h')"
  shows "\<exists>vs2 h3. leaf_array_elements dbl doc es' h2 = Inr (vs2, es', h3)
     \<and> map erase vs2 = map erase vs"
  using assms
proof (induction es arbitrary: h vs es' h' h2)
  case Nil
  then show ?case by simp
next
  case (Cons e es)
  from Cons.prems(2) obtain v e' h1 vs1 es1 where
    e: "leaf_value dbl doc e h = Inr (v, e', h1)"
    and r: "leaf_array_elements dbl doc es h1 = Inr (vs1, es1, h')"
    and eq: "vs = v # vs1" "es' = e' # es1"
    by (auto split: sum.splits)
  from Cons.prems(1) [OF _ e] have "again dbl doc v e'" by simp
  then obtain v2 h4 where e2: "leaf_value dbl doc e' h2 = Inr (v2, e', h4)"
    and v2: "erase v2 = erase v"
    unfolding again_def by blast
  have sub: "again dbl doc v e'" if "e \<in> set es" "leaf_value dbl doc e h = Inr (v, e', h')"
    for e v e' h h'
    using Cons.prems(1) [of e h v e' h'] that by simp
  have "\<exists>vs2 h3. leaf_array_elements dbl doc es1 h4 = Inr (vs2, es1, h3)
      \<and> map erase vs2 = map erase vs1"
    using sub r by (rule Cons.IH)
  then obtain vs2 h3 where
    "leaf_array_elements dbl doc es1 h4 = Inr (vs2, es1, h3)" "map erase vs2 = map erase vs1"
    by blast
  with e2 v2 eq show ?case by simp
qed

lemma hash_elements_again:
  assumes "\<And>e v e' h h'. e \<in> set es \<Longrightarrow> leaf_value dbl doc e h = Inr (v, e', h')
      \<Longrightarrow> again dbl doc v e'"
    and "leaf_hash_elements dbl doc es kvs h = Inr (kvs', es', h')"
    and "map (map_prod erase erase) kvs2 = map (map_prod erase erase) kvs"
  shows "\<exists>kvs2' h3. leaf_hash_elements dbl doc es' kvs2 h2 = Inr (kvs2', es', h3)
     \<and> map (map_prod erase erase) kvs2' = map (map_prod erase erase) kvs'"
  using assms
proof (induction es arbitrary: h kvs kvs' es' h' h2 kvs2)
  case Nil
  then show ?case by simp
next
  case (Cons e es)
  let ?k = "\<lambda>h. Ref h (RString (cstr (buf doc) (key e)) (encoding doc))"
  from Cons.prems(2) obtain v e' h1 es1 where
    e: "leaf_value dbl doc e (Suc h) = Inr (v, e', h1)"
    and r: "leaf_hash_elements dbl doc es (rb_hash_aset kvs (?k h) v) h1 = Inr (kvs', es1, h')"
    and eq: "es' = e' # es1"
    by (auto simp: rb_str_new2_def split: sum.splits)
  from leaf_value_key [OF e] have key: "key e' = key e" .
  from Cons.prems(1) [OF _ e] have "again dbl doc v e'" by simp
  then obtain v2 h4 where e2: "leaf_value dbl doc e' (Suc h2) = Inr (v2, e', h4)"
    and v2: "erase v2 = erase v"
    unfolding again_def by blast
  have m: "map (map_prod erase erase) (rb_hash_aset kvs2 (?k h2) v2)
      = map (map_prod erase erase) (rb_hash_aset kvs (?k h) v)"
    using Cons.prems(3) _ v2 by (rule rb_hash_aset_erase) simp
  have sub: "again dbl doc v e'"
    if "e \<in> set es" "leaf_value dbl doc e h = Inr (v, e', h')" for e v e' h h'
    using Cons.prems(1) [of e h v e' h'] that by simp
  have "\<exists>kvs2' h3.
      leaf_hash_elements dbl doc es1 (rb_hash_aset kvs2 (?k h2) v2) h4 = Inr (kvs2', es1, h3)
      \<and> map (map_prod erase erase) kvs2' = map (map_prod erase erase) kvs'"
    using sub r m by (rule Cons.IH)
  then obtain kvs2' h3 where
    "leaf_hash_elements dbl doc es1 (rb_hash_aset kvs2 (?k h2) v2) h4 = Inr (kvs2', es1, h3)"
    "map (map_prod erase erase) kvs2' = map (map_prod erase erase) kvs'"
    by blast
  with e2 eq key show ?case by (simp add: rb_str_new2_def)
qed

lemma leaf_value_again: "leaf_value dbl doc leaf h = Inr (v, leaf', h') \<Longrightarrow> again dbl doc v leaf'"
proof (induction leaf arbitrary: h v leaf' h')
  case (Leaf k i st es rv t pt vt)
  note ih = Leaf.IH
  show ?case
  proof (cases "vt = RUBY_VAL")
    case True
    with Leaf.prems show ?thesis by (auto simp: again_def)
  next
    case False
    show ?thesis
    proof (cases t)
      case T_ARRAY
      with False Leaf.prems obtain vs es' where
        r: "leaf_array_elements dbl doc es (Suc h) = Inr (vs, es', h')"
        and eq: "v = Ref h (RArray vs)" "leaf' = Leaf k i st es' rv t pt vt"
        by (auto split: sum.splits)
      have "\<exists>v' h3. leaf_value dbl doc leaf' h2 = Inr (v', leaf', h3) \<and> erase v' = erase v"
        for h2
      proof -
        have "\<exists>vs2 h3. leaf_array_elements dbl doc es' (Suc h2) = Inr (vs2, es', h3)
            \<and> map erase vs2 = map erase vs"
          using ih r by (rule array_elements_again)
        then obtain vs2 h3 where
          "leaf_array_elements dbl doc es' (Suc h2) = Inr (vs2, es', h3)"
          "map erase vs2 = map erase vs" by blast
        with False T_ARRAY eq
        have "leaf_value dbl doc leaf' h2 = Inr (Ref h2 (RArray vs2), leaf', h3)"
          "erase (Ref h2 (RArray vs2)) = erase v" by simp_all
        then show ?thesis by blast
      qed
      then show ?thesis by (simp add: again_def)
    next
      case T_HASH
      with False Leaf.prems obtain kvs es' where
        r: "leaf_hash_elements dbl doc es [] (Suc h) = Inr (kvs, es', h')"
        and eq: "v = Ref h (RHash kvs)" "leaf' = Leaf k i st es' rv t pt vt"
        by (auto split: sum.splits)
      have "\<exists>v' h3. leaf_value dbl doc leaf' h2 = Inr (v', leaf', h3) \<and> erase v' = erase v"
        for h2
      proof -
        have "\<exists>kvs2 h3. leaf_hash_elements dbl doc es' [] (Suc h2) = Inr (kvs2, es', h3)
            \<and> map (map_prod erase erase) kvs2 = map (map_prod erase erase) kvs"
          using ih r refl by (rule hash_elements_again)
        then obtain kvs2 h3 where
          "leaf_hash_elements dbl doc es' [] (Suc h2) = Inr (kvs2, es', h3)"
          "map (map_prod erase erase) kvs2 = map (map_prod erase erase) kvs" by blast
        with False T_HASH eq
        have "leaf_value dbl doc leaf' h2 = Inr (Ref h2 (RHash kvs2), leaf', h3)"
          "erase (Ref h2 (RHash kvs2)) = erase v" by simp_all
        then show ?thesis by blast
      qed
      then show ?thesis by (simp add: again_def)
    qed (use False Leaf.prems in \<open>auto simp: again_def leaf_fixnum_value_def leaf_float_value_def
          rb_str_new2_def Let_def split: prod.splits option.splits\<close>)
  qed
qed

lemma array_elements_mono:
  assumes "\<And>e v e' h h'. e \<in> set es \<Longrightarrow> leaf_value dbl doc e h = Inr (v, e', h') \<Longrightarrow> h \<le> h'"
    and "leaf_array_elements dbl doc es h = Inr (vs, es', h')"
  shows "h \<le> h'"
  using assms
proof (induction es arbitrary: h vs es')
  case Nil
  then show ?case by simp
next
  case (Cons e es)
  from Cons.prems(2) obtain v e' h1 vs1 es1 where
    e: "leaf_value dbl doc e h = Inr (v, e', h1)"
    and r: "leaf_array_elements dbl doc es h1 = Inr (vs1, es1, h')"
    by (auto split: sum.splits)
  have sub: "h \<le> h'" if "e \<in> set es" "leaf_value dbl doc e h = Inr (v, e', h')"
    for e v e' h h'
    using Cons.prems(1) [of e h v e' h'] that by simp
  have "h1 \<le> h'" using sub r by (rule Cons.IH)
  moreover from Cons.prems(1) [OF _ e] have "h \<le> h1" by simp
  ultimately show ?case by simp
qed

lemma hash_elements_mono:
  assumes "\<And>e v e' h h'. e \<in> set es \<Longrightarrow> leaf_value dbl doc e h = Inr (v, e', h') \<Longrightarrow> h \<le> h'"
    and "leaf_hash_elements dbl doc es kvs h = Inr (kvs', es', h')"
  shows "h \<le> h'"
  using assms
proof (induction es arbitrary: h kvs es')
  case Nil
  then show ?case by simp
next
  case (Cons e es)
  from Cons.prems(2) obtain v e' h1 kvs1 es1 where
    e: "leaf_value dbl doc e (Suc h) = Inr (v, e', h1)"
    and r: "leaf_hash_elements dbl doc es kvs1 h1 = Inr (kvs', es1, h')"
    by (auto simp: rb_str_new2_def split: sum.splits)
  have sub: "h \<le> h'" if "e \<in> set es" "leaf_value dbl doc e h = Inr (v, e', h')"
    for e v e' h h'
    using Cons.prems(1) [of e h v e' h'] that by simp
  have "h1 \<le> h'" using sub r by (rule Cons.IH)
  moreover from Cons.prems(1) [OF _ e] have "Suc h \<le> h1" by simp
  ultimately show ?case by simp
qed

lemma leaf_value_mono: "leaf_value dbl doc leaf h = Inr (v, leaf', h') \<Longrightarrow> h \<le> h'"
proof (induction leaf arbitrary: h v leaf' h')
  case (Leaf k i st es rv t pt vt)
  note ih = Leaf.IH
  show ?case
  proof (cases "vt = RUBY_VAL")
    case True
    with Leaf.prems show ?thesis by auto
  next
    case False
    show ?thesis
    proof (cases t)
      case T_ARRAY
      with False Leaf.prems obtain vs es' where
        r: "leaf_array_elements dbl doc es (Suc h) = Inr (vs, es', h')"
        by (auto split: sum.splits)
      have "Suc h \<le> h'" using ih r by (rule array_elements_mono)
      then show ?thesis by simp
    next
      case T_HASH
      with False Leaf.prems obtain kvs es' where
        r: "leaf_hash_elements dbl doc es [] (Suc h) = Inr (kvs, es', h')"
        by (auto split: sum.splits)
      have "Suc h \<le> h'" using ih r by (rule hash_elements_mono)
      then show ?thesis by simp
    qed (use False Leaf.prems in \<open>auto simp: leaf_fixnum_value_def leaf_float_value_def
          rb_str_new2_def rb_integer_def Let_def split: prod.splits option.splits if_splits\<close>)
  qed
qed

lemma leaf_value_doc:
  "buf doc2 = buf doc \<Longrightarrow> encoding doc2 = encoding doc \<Longrightarrow>
     leaf_value dbl doc2 leaf h = leaf_value dbl doc leaf h"
  "buf doc2 = buf doc \<Longrightarrow> encoding doc2 = encoding doc \<Longrightarrow>
     leaf_array_elements dbl doc2 es h = leaf_array_elements dbl doc es h"
  "buf doc2 = buf doc \<Longrightarrow> encoding doc2 = encoding doc \<Longrightarrow>
     leaf_hash_elements dbl doc2 es kvs h = leaf_hash_elements dbl doc es kvs h"
proof (induction dbl doc leaf h and dbl doc es h and dbl doc es kvs h
    rule: leaf_value_leaf_array_elements_leaf_hash_elements.induct)
  case (1 dbl doc k i st es v t pt vt h)
  then show ?case by (cases t) (simp_all split: sum.splits prod.splits)
next
  case (2 dbl doc h)
  then show ?case by simp
next
  case (3 dbl doc e es h)
  then show ?case by (simp split: sum.splits prod.splits)
next
  case (4 dbl doc kvs h)
  then show ?case by simp
next
  case (5 dbl doc e es kvs h)
  then show ?case by (simp add: rb_str_new2_def split: sum.splits prod.splits)
qed

lemma array_elements_members:
  assumes "leaf_array_elements dbl doc es h = Inr (vs, es', h')"
  shows "length vs = length es \<and> length es' = length es
     \<and> (\<forall>i<length es. \<exists>hi hi'. h \<le> hi
           \<and> leaf_value dbl doc (es ! i) hi = Inr (vs ! i, es' ! i, hi'))"
  using assms
proof (induction es arbitrary: h vs es')
  case Nil
  then show ?case by simp
next
  case (Cons e es)
  from Cons.prems obtain v e' h1 vs1 es1 where
    e: "leaf_value dbl doc e h = Inr (v, e', h1)"
    and r: "leaf_array_elements dbl doc es h1 = Inr (vs1, es1, h')"
    and eq: "vs = v # vs1" "es' = e' # es1"
    by (auto split: sum.splits)
  from leaf_value_mono [OF e] have h1: "h \<le> h1" .
  from Cons.IH [OF r] have len: "length vs1 = length es" "length es1 = length es"
    and mem: "\<And>i. i < length es \<Longrightarrow> \<exists>hi hi'. h1 \<le> hi
           \<and> leaf_value dbl doc (es ! i) hi = Inr (vs1 ! i, es1 ! i, hi')"
    by simp_all
  have "\<exists>hi hi'. h \<le> hi \<and> leaf_value dbl doc ((e # es) ! i) hi = Inr (vs ! i, es' ! i, hi')"
    if "i < length (e # es)" for i
  proof (cases i)
    case 0
    with e eq show ?thesis by auto
  next
    case (Suc j)
    with that have "j < length es" by simp
    from mem [OF this] h1 Suc eq show ?thesis by (auto intro: le_trans)
  qed
  with len eq show ?case by simp
qed

lemma hash_elements_members:
  assumes "leaf_hash_elements dbl doc es kvs h = Inr (kvs', es', h')"
  shows "\<exists>ps. length ps = length es \<and> length es' = length es
     \<and> kvs' = foldl (\<lambda>kvs (k, x). rb_hash_aset kvs k x) kvs ps
     \<and> (\<forall>i<length es. \<exists>hi hi'. h \<le> hi
           \<and> fst (ps ! i) = Ref hi (RString (cstr (buf doc) (key (es ! i))) (encoding doc))
           \<and> leaf_value dbl doc (es ! i) (Suc hi) = Inr (snd (ps ! i), es' ! i, hi'))"
  using assms
proof (induction es arbitrary: h kvs es')
  case Nil
  then show ?case by simp
next
  case (Cons e es)
  let ?k = "Ref h (RString (cstr (buf doc) (key e)) (encoding doc))"
  from Cons.prems obtain v e' h1 es1 where
    e: "leaf_value dbl doc e (Suc h) = Inr (v, e', h1)"
    and r: "leaf_hash_elements dbl doc es (rb_hash_aset kvs ?k v) h1 = Inr (kvs', es1, h')"
    and eq: "es' = e' # es1"
    by (auto simp: rb_str_new2_def split: sum.splits)
  from leaf_value_mono [OF e] have h1: "h \<le> h1" by simp
  from Cons.IH [OF r] obtain ps1 where len: "length ps1 = length es" "length es1 = length es"
    and kvs': "kvs' = foldl (\<lambda>kvs (k, x). rb_hash_aset kvs k x) (rb_hash_aset kvs ?k v) ps1"
    and mem: "\<And>i. i < length es \<Longrightarrow> \<exists>hi hi'. h1 \<le> hi
           \<and> fst (ps1 ! i) = Ref hi (RString (cstr (buf doc) (key (es ! i))) (encoding doc))
           \<and> leaf_value dbl doc (es ! i) (Suc hi) = Inr (snd (ps1 ! i), es1 ! i, hi')"
    by auto
  let ?ps = "(?k, v) # ps1"
  have "\<exists>hi hi'. h \<le> hi
      \<and> fst (?ps ! i) = Ref hi (RString (cstr (buf doc) (key ((e # es) ! i))) (encoding doc))
      \<and> leaf_value dbl doc ((e # es) ! i) (Suc hi) = Inr (snd (?ps ! i), es' ! i, hi')"
    if "i < length (e # es)" for i
  proof (cases i)
    case 0
    with e eq show ?thesis by auto
  next
    case (Suc j)
    with that have "j < length es" by simp
    from mem [OF this] h1 Suc eq show ?thesis by (auto intro: le_trans)
  qed
  with len eq kvs' show ?case by (intro exI [of _ ?ps]) simp
qed

text \<open>
  C8. Let \<open>leaf_value\<close> return \<open>v\<close> for a leaf, and let \<open>leaf'\<close> be the leaf as the call
  leaves it.

  A scalar (its kind is neither array nor object): the value is stored in the leaf; for an
  integer, a float and a string the leaf is marked \<open>RUBY_VAL\<close>. When the leaf was not
  marked before, the call has made the value: \<open>nil\<close>, \<open>true\<close> or \<open>false\<close>, an Integer, a
  new Float of the double \<open>rb_cstr_to_dbl\<close> reads in the text, a new String of the bytes
  of the leaf with the encoding of the document. Materialising the leaf again, in any state
  of the allocator, returns the identical value, makes no object and leaves the leaf as it
  is.

  An array or an object that is not marked: the leaf stays unmarked and no value is
  stored in it; the value is a new Array or Hash (the first object the call makes) that
  holds, member by member and in their order, the values \<open>leaf_value\<close> returns for the
  members, for an object each stored by \<open>rb_hash_aset\<close> under a new String of the key.
  Materialising again makes a new object again, with the identity the allocator gives
  next, which is another object than the first whenever the allocator is where the first
  call left it or further; its contents are equal to those of the first.

  \<open>fetch\<close> without a path is \<open>leaf_value\<close> of the current leaf, and so it is in the
  document that holds the leaf as the first call left it.
\<close>

theorem leaf_value_cached:
  assumes "leaf_value dbl doc leaf h = Inr (v, leaf', h')"
  shows "(type leaf \<noteq> T_ARRAY \<and> type leaf \<noteq> T_HASH \<longrightarrow>
            rvalue leaf' = v
          \<and> (type leaf = T_FIXNUM \<or> type leaf = T_FLOAT \<or> type leaf = T_STRING \<longrightarrow>
                value_type leaf' = RUBY_VAL)
          \<and> (value_type leaf \<noteq> RUBY_VAL \<longrightarrow>
                (case type leaf of
                   T_NIL \<Rightarrow> v = Qnil \<and> h' = h
                 | T_TRUE \<Rightarrow> v = Qtrue \<and> h' = h
                 | T_FALSE \<Rightarrow> v = Qfalse \<and> h' = h
                 | T_FIXNUM \<Rightarrow> \<exists>n. v = Fixnum n \<and> h' = h \<or> v = Ref h (RBignum n) \<and> h' = Suc h
                 | T_FLOAT \<Rightarrow> \<exists>d. dbl (cstr (buf doc) (str leaf)) = Some d
                       \<and> v = Ref h (RFloat d) \<and> h' = Suc h
                 | T_STRING \<Rightarrow>
                     v = Ref h (RString (cstr (buf doc) (str leaf)) (encoding doc)) \<and> h' = Suc h
                 | _ \<Rightarrow> False))
          \<and> leaf_value dbl doc leaf' h2 = Inr (v, leaf', h2))
    \<and> ((type leaf = T_ARRAY \<or> type leaf = T_HASH) \<and> value_type leaf \<noteq> RUBY_VAL \<longrightarrow>
          value_type leaf' = value_type leaf \<and> rvalue leaf' = rvalue leaf
          \<and> type leaf' = type leaf \<and> length (elements leaf') = length (elements leaf)
          \<and> h < h'
          \<and> (type leaf = T_ARRAY \<longrightarrow>
                (\<exists>vs. v = Ref h (RArray vs) \<and> length vs = length (elements leaf)
                   \<and> (\<forall>i<length vs. \<exists>hi hi'. h < hi
                         \<and> leaf_value dbl doc (elements leaf ! i) hi
                             = Inr (vs ! i, elements leaf' ! i, hi'))))
          \<and> (type leaf = T_HASH \<longrightarrow>
                (\<exists>ps. v = Ref h (RHash (foldl (\<lambda>kvs (k, x). rb_hash_aset kvs k x) [] ps))
                   \<and> length ps = length (elements leaf)
                   \<and> (\<forall>i<length ps. \<exists>hi hi'. h < hi
                         \<and> fst (ps ! i)
                             = Ref hi (RString (cstr (buf doc) (key (elements leaf ! i)))
                                 (encoding doc))
                         \<and> leaf_value dbl doc (elements leaf ! i) (Suc hi)
                             = Inr (snd (ps ! i), elements leaf' ! i, hi'))))
          \<and> (\<exists>c2 h3. leaf_value dbl doc leaf' h2 = Inr (Ref h2 c2, leaf', h3) \<and> h2 < h3
                \<and> rb_equal (Ref h2 c2) v \<and> (h' \<le> h2 \<longrightarrow> Ref h2 c2 \<noteq> v)))
    \<and> (where_p doc < length (where_path doc) \<and> current doc = Some leaf \<longrightarrow>
          doc_fetch dbl garbage doc [] h = Inr (v, Some leaf', h')
          \<and> doc_fetch dbl garbage
                (doc\<lparr>where_path := (where_path doc)[where_p doc := Some leaf']\<rparr>) [] h2
              = (case leaf_value dbl doc leaf' h2 of
                   Inl e \<Rightarrow> Inl e
                 | Inr (v2, l2, h3) \<Rightarrow> Inr (v2, Some l2, h3)))"
proof (intro conjI)
  show "type leaf \<noteq> T_ARRAY \<and> type leaf \<noteq> T_HASH \<longrightarrow>
            rvalue leaf' = v
          \<and> (type leaf = T_FIXNUM \<or> type leaf = T_FLOAT \<or> type leaf = T_STRING \<longrightarrow>
                value_type leaf' = RUBY_VAL)
          \<and> (value_type leaf \<noteq> RUBY_VAL \<longrightarrow>
                (case type leaf of
                   T_NIL \<Rightarrow> v = Qnil \<and> h' = h
                 | T_TRUE \<Rightarrow> v = Qtrue \<and> h' = h
                 | T_FALSE \<Rightarrow> v = Qfalse \<and> h' = h
                 | T_FIXNUM \<Rightarrow> \<exists>n. v = Fixnum n \<and> h' = h \<or> v = Ref h (RBignum n) \<and> h' = Suc h
                 | T_FLOAT \<Rightarrow> \<exists>d. dbl (cstr (buf doc) (str leaf)) = Some d
                       \<and> v = Ref h (RFloat d) \<and> h' = Suc h
                 | T_STRING \<Rightarrow>
                     v = Ref h (RString (cstr (buf doc) (str leaf)) (encoding doc)) \<and> h' = Suc h
                 | _ \<Rightarrow> False))
          \<and> leaf_value dbl doc leaf' h2 = Inr (v, leaf', h2)"
    using assms
    by (cases leaf; cases "type leaf")
      (auto simp: leaf_fixnum_value_def leaf_float_value_def rb_str_new2_def rb_integer_def
        Let_def split: prod.splits option.splits if_splits)
next
  show "(type leaf = T_ARRAY \<or> type leaf = T_HASH) \<and> value_type leaf \<noteq> RUBY_VAL \<longrightarrow>
          value_type leaf' = value_type leaf \<and> rvalue leaf' = rvalue leaf
          \<and> type leaf' = type leaf \<and> length (elements leaf') = length (elements leaf)
          \<and> h < h'
          \<and> (type leaf = T_ARRAY \<longrightarrow>
                (\<exists>vs. v = Ref h (RArray vs) \<and> length vs = length (elements leaf)
                   \<and> (\<forall>i<length vs. \<exists>hi hi'. h < hi
                         \<and> leaf_value dbl doc (elements leaf ! i) hi
                             = Inr (vs ! i, elements leaf' ! i, hi'))))
          \<and> (type leaf = T_HASH \<longrightarrow>
                (\<exists>ps. v = Ref h (RHash (foldl (\<lambda>kvs (k, x). rb_hash_aset kvs k x) [] ps))
                   \<and> length ps = length (elements leaf)
                   \<and> (\<forall>i<length ps. \<exists>hi hi'. h < hi
                         \<and> fst (ps ! i)
                             = Ref hi (RString (cstr (buf doc) (key (elements leaf ! i)))
                                 (encoding doc))
                         \<and> leaf_value dbl doc (elements leaf ! i) (Suc hi)
                             = Inr (snd (ps ! i), elements leaf' ! i, hi'))))
          \<and> (\<exists>c2 h3. leaf_value dbl doc leaf' h2 = Inr (Ref h2 c2, leaf', h3) \<and> h2 < h3
                \<and> rb_equal (Ref h2 c2) v \<and> (h' \<le> h2 \<longrightarrow> Ref h2 c2 \<noteq> v))"
  proof (intro impI)
    assume c: "(type leaf = T_ARRAY \<or> type leaf = T_HASH) \<and> value_type leaf \<noteq> RUBY_VAL"
    obtain k i st es rv t pt vt where l: "leaf = Leaf k i st es rv t pt vt" by (cases leaf)
    from c l have t: "t = T_ARRAY \<or> t = T_HASH" and vt: "vt \<noteq> RUBY_VAL" by simp_all
    from assms l t vt obtain es' where
      l': "leaf' = Leaf k i st es' rv t pt vt"
      and m: "(t = T_ARRAY \<and> (\<exists>vs. v = Ref h (RArray vs)
                 \<and> leaf_array_elements dbl doc es (Suc h) = Inr (vs, es', h')))
         \<or> (t = T_HASH \<and> (\<exists>kvs. v = Ref h (RHash kvs)
                 \<and> leaf_hash_elements dbl doc es [] (Suc h) = Inr (kvs, es', h')))"
      by (auto split: sum.splits)
    have arr: "length es' = length es \<and> h < h'
        \<and> (\<exists>vs. v = Ref h (RArray vs) \<and> length vs = length es
             \<and> (\<forall>i<length vs. \<exists>hi hi'. h < hi
                   \<and> leaf_value dbl doc (es ! i) hi = Inr (vs ! i, es' ! i, hi')))"
      if "v = Ref h (RArray vs)" "leaf_array_elements dbl doc es (Suc h) = Inr (vs, es', h')"
      for vs
    proof -
      from leaf_value_mono that(2) have "Suc h \<le> h'" by (rule array_elements_mono)
      moreover from array_elements_members [OF that(2)]
      have "length vs = length es" "length es' = length es"
        "\<forall>i<length es. \<exists>hi hi'. Suc h \<le> hi
           \<and> leaf_value dbl doc (es ! i) hi = Inr (vs ! i, es' ! i, hi')"
        by simp_all
      ultimately show ?thesis using that(1) by (auto simp: Suc_le_eq)
    qed
    have hash: "length es' = length es \<and> h < h'
        \<and> (\<exists>ps. v = Ref h (RHash (foldl (\<lambda>kvs (k, x). rb_hash_aset kvs k x) [] ps))
             \<and> length ps = length es
             \<and> (\<forall>i<length ps. \<exists>hi hi'. h < hi
                   \<and> fst (ps ! i) = Ref hi (RString (cstr (buf doc) (key (es ! i))) (encoding doc))
                   \<and> leaf_value dbl doc (es ! i) (Suc hi) = Inr (snd (ps ! i), es' ! i, hi')))"
      if "v = Ref h (RHash kvs)" "leaf_hash_elements dbl doc es [] (Suc h) = Inr (kvs, es', h')"
      for kvs
    proof -
      from leaf_value_mono that(2) have "Suc h \<le> h'" by (rule hash_elements_mono)
      moreover from hash_elements_members [OF that(2)] obtain ps where
        "length ps = length es" "length es' = length es"
        "kvs = foldl (\<lambda>kvs (k, x). rb_hash_aset kvs k x) [] ps"
        "\<forall>i<length es. \<exists>hi hi'. Suc h \<le> hi
           \<and> fst (ps ! i) = Ref hi (RString (cstr (buf doc) (key (es ! i))) (encoding doc))
           \<and> leaf_value dbl doc (es ! i) (Suc hi) = Inr (snd (ps ! i), es' ! i, hi')"
        by blast
      ultimately show ?thesis using that(1)
        by (intro conjI exI [of _ ps]) (auto simp: Suc_le_eq)
    qed
    from leaf_value_again [OF assms] obtain v2 h3 where
      a: "leaf_value dbl doc leaf' h2 = Inr (v2, leaf', h3)" and e: "erase v2 = erase v"
      unfolding again_def by blast
    from a l' t vt obtain c2 where v2: "v2 = Ref h2 c2" by (auto split: sum.splits)
    from a l' t vt have "Suc h2 \<le> h3"
      using leaf_value_mono
      by (auto split: sum.splits dest: array_elements_mono [rotated] hash_elements_mono [rotated])
    with m arr hash have hh: "h < h'" by blast
    have second: "\<exists>c2 h3. leaf_value dbl doc leaf' h2 = Inr (Ref h2 c2, leaf', h3) \<and> h2 < h3
          \<and> rb_equal (Ref h2 c2) v \<and> (h' \<le> h2 \<longrightarrow> Ref h2 c2 \<noteq> v)"
    proof (intro exI conjI impI)
      from a v2 show "leaf_value dbl doc leaf' h2 = Inr (Ref h2 c2, leaf', h3)" by simp
      from \<open>Suc h2 \<le> h3\<close> show "h2 < h3" by simp
      from e v2 show "rb_equal (Ref h2 c2) v" by (simp add: rb_equal_def)
      assume "h' \<le> h2"
      with hh m show "Ref h2 c2 \<noteq> v" by auto
    qed
    from m show "value_type leaf' = value_type leaf \<and> rvalue leaf' = rvalue leaf
          \<and> type leaf' = type leaf \<and> length (elements leaf') = length (elements leaf)
          \<and> h < h'
          \<and> (type leaf = T_ARRAY \<longrightarrow>
                (\<exists>vs. v = Ref h (RArray vs) \<and> length vs = length (elements leaf)
                   \<and> (\<forall>i<length vs. \<exists>hi hi'. h < hi
                         \<and> leaf_value dbl doc (elements leaf ! i) hi
                             = Inr (vs ! i, elements leaf' ! i, hi'))))
          \<and> (type leaf = T_HASH \<longrightarrow>
                (\<exists>ps. v = Ref h (RHash (foldl (\<lambda>kvs (k, x). rb_hash_aset kvs k x) [] ps))
                   \<and> length ps = length (elements leaf)
                   \<and> (\<forall>i<length ps. \<exists>hi hi'. h < hi
                         \<and> fst (ps ! i)
                             = Ref hi (RString (cstr (buf doc) (key (elements leaf ! i)))
                                 (encoding doc))
                         \<and> leaf_value dbl doc (elements leaf ! i) (Suc hi)
                             = Inr (snd (ps ! i), elements leaf' ! i, hi'))))
          \<and> (\<exists>c2 h3. leaf_value dbl doc leaf' h2 = Inr (Ref h2 c2, leaf', h3) \<and> h2 < h3
                \<and> rb_equal (Ref h2 c2) v \<and> (h' \<le> h2 \<longrightarrow> Ref h2 c2 \<noteq> v))"
    proof (elim disjE conjE exE)
      fix vs assume "t = T_ARRAY" "v = Ref h (RArray vs)"
        "leaf_array_elements dbl doc es (Suc h) = Inr (vs, es', h')"
      with arr [OF this(2,3)] second l l' show ?thesis by simp
    next
      fix kvs assume "t = T_HASH" "v = Ref h (RHash kvs)"
        "leaf_hash_elements dbl doc es [] (Suc h) = Inr (kvs, es', h')"
      with hash [OF this(2,3)] second l l' show ?thesis by simp
    qed
  qed
next
  let ?doc2 = "doc\<lparr>where_path := (where_path doc)[where_p doc := Some leaf']\<rparr>"
  have "leaf_value dbl ?doc2 leaf' h2 = leaf_value dbl doc leaf' h2"
    by (rule leaf_value_doc) simp_all
  with assms show "where_p doc < length (where_path doc) \<and> current doc = Some leaf \<longrightarrow>
          doc_fetch dbl garbage doc [] h = Inr (v, Some leaf', h')
          \<and> doc_fetch dbl garbage ?doc2 [] h2
              = (case leaf_value dbl doc leaf' h2 of
                   Inl e \<Rightarrow> Inl e
                 | Inr (v2, l2, h3) \<Rightarrow> Inr (v2, Some l2, h3))"
    by (auto simp: doc_fetch_def get_doc_leaf_def current_def split: sum.splits)
qed

theorem leaf_value_cached_witness:
  "\<exists>doc leaf leaf' e e'.
     doc_open None id ''{\"k\":[\"a\",1.5]}'' = Some (Inr doc) \<and> data doc = Some leaf
     \<and> leaf_value (\<lambda>x. Some 0) doc leaf 0
         = Inr (Ref 0 (RHash [(Ref 1 (RString ''k'' None),
                   Ref 2 (RArray [Ref 3 (RString ''a'' None), Ref 4 (RFloat 0)]))]), leaf', 5)
     \<and> leaf_value (\<lambda>x. Some 0) doc leaf' 5
         = Inr (Ref 5 (RHash [(Ref 6 (RString ''k'' None),
                   Ref 7 (RArray [Ref 3 (RString ''a'' None), Ref 4 (RFloat 0)]))]), leaf', 8)
     \<and> rb_equal
          (Ref 5 (RHash [(Ref 6 (RString ''k'' None),
                   Ref 7 (RArray [Ref 3 (RString ''a'' None), Ref 4 (RFloat 0)]))]))
          (Ref 0 (RHash [(Ref 1 (RString ''k'' None),
                   Ref 2 (RArray [Ref 3 (RString ''a'' None), Ref 4 (RFloat 0)]))]))
     \<and> value_type leaf' = COL_VAL
     \<and> elements (elements leaf ! 0) ! 1 = e
     \<and> leaf_value (\<lambda>x. Some 0) doc e 4 = Inr (Ref 4 (RFloat 0), e', 5)
     \<and> value_type e' = RUBY_VAL \<and> rvalue e' = Ref 4 (RFloat 0)
     \<and> leaf_value (\<lambda>x. Some 0) doc e' 9 = Inr (Ref 4 (RFloat 0), e', 9)"
proof -
  let ?doc = "projr (the (doc_open None id ''{\"k\":[\"a\",1.5]}''))"
  let ?leaf = "the (data ?doc)"
  let ?leaf' = "fst (snd (projr (leaf_value (\<lambda>x. Some 0) ?doc ?leaf 0)))"
  let ?e = "elements (elements ?leaf ! 0) ! 1"
  let ?e' = "fst (snd (projr (leaf_value (\<lambda>x. Some 0) ?doc ?e 4)))"
  let ?v = "Ref 0 (RHash [(Ref 1 (RString ''k'' None),
                   Ref 2 (RArray [Ref 3 (RString ''a'' None), Ref 4 (RFloat 0)]))])"
  let ?v2 = "Ref 5 (RHash [(Ref 6 (RString ''k'' None),
                   Ref 7 (RArray [Ref 3 (RString ''a'' None), Ref 4 (RFloat 0)]))])"
  have 1: "doc_open None id ''{\"k\":[\"a\",1.5]}'' = Some (Inr ?doc)" "data ?doc = Some ?leaf"
    by code_simp+
  have 2: "leaf_value (\<lambda>x. Some 0) ?doc ?leaf 0 = Inr (?v, ?leaf', 5)"
    by code_simp
  have 3: "leaf_value (\<lambda>x. Some 0) ?doc ?leaf' 5 = Inr (?v2, ?leaf', 8)"
    by code_simp
  have 4: "(type ?leaf = T_ARRAY \<or> type ?leaf = T_HASH) \<and> value_type ?leaf \<noteq> RUBY_VAL"
    "value_type ?leaf = COL_VAL"
    by code_simp+
  have 5: "leaf_value (\<lambda>x. Some 0) ?doc ?e 4 = Inr (Ref 4 (RFloat 0), ?e', 5)"
    by code_simp
  have 6: "type ?e \<noteq> T_ARRAY \<and> type ?e \<noteq> T_HASH" "type ?e = T_FLOAT"
    by code_simp+
  from leaf_value_cached [OF 2, of 5] 4 3
  have "rb_equal ?v2 ?v" "value_type ?leaf' = COL_VAL" by auto
  moreover from leaf_value_cached [OF 5, of 9] 6
  have "value_type ?e' = RUBY_VAL" "rvalue ?e' = Ref 4 (RFloat 0)"
    "leaf_value (\<lambda>x. Some 0) ?doc ?e' 9 = Inr (Ref 4 (RFloat 0), ?e', 9)" by blast+
  ultimately show ?thesis using 1 2 3 5 by blast
qed

end
